theory Spec2Isabelle
  imports Main "HOL-Library.Word"
begin

section \<open>The chained hash table of chain-hash.c\<close>

text \<open>
  A shallow embedding of \<^verbatim>\<open>chain-hash.c\<close> and \<^verbatim>\<open>chain-hash.h\<close>. Stored values are
  the non-null \<^verbatim>\<open>void *\<close> pointers, an arbitrary type \<open>'a\<close>; a \<^verbatim>\<open>void *\<close> that may be
  \<^verbatim>\<open>NULL\<close> is an \<open>'a option\<close>. \<^verbatim>\<open>unsigned int\<close> is \<open>32 word\<close>; a C \<^verbatim>\<open>int\<close> result
  of the hash function is the \<open>32 word\<close> holding its bits, read by \<open>sint\<close>, so that the
  conversion of \<^verbatim>\<open>int\<close> to \<^verbatim>\<open>unsigned int\<close> leaves the word as it is. What C leaves
  undefined (a read through \<^verbatim>\<open>NULL\<close>, an access outside an array, \<^verbatim>\<open>%\<close> by zero) is a
  value of \<open>error\<close>.
\<close>

datatype error = AllocFailure | NullDeref | OutOfBounds | DivByZero

definition INT_MAX :: int where
  "INT_MAX = 2 ^ 31 - 1"

subsection \<open>The linked list the table is built on\<close>

text \<open>
  \<^verbatim>\<open>linkedlist.h\<close> is not among the sources. A chain is the sequence of its values together
  with the destructor it was created with; a node pointer \<^verbatim>\<open>listelmt *\<close> is the position
  of the node in its chain, \<open>None\<close> for \<^verbatim>\<open>NULL\<close>.
\<close>

record ('a, 'd) linked_list =
  elems :: "'a list"
  list_destroy_fn :: "'d"

type_synonym listelmt = "nat option"

text \<open>Modelled from the spec: \<^verbatim>\<open>list_create\<close> of linkedlist.h, "a fresh empty Chain
  sharing the same destroy_fn"; \<open>ok\<close> is whether its allocation succeeds, and the result
  is \<^verbatim>\<open>NULL\<close> when it does not.\<close>
definition list_create :: "bool \<Rightarrow> 'd \<Rightarrow> ('a, 'd) linked_list option" where
  "list_create ok d = (if ok then Some \<lparr>elems = [], list_destroy_fn = d\<rparr> else None)"

text \<open>Modelled from the spec: \<^verbatim>\<open>list_size\<close> of linkedlist.h, the "size query" of a chain.\<close>
definition list_size :: "('a, 'd) linked_list \<Rightarrow> nat" where
  "list_size l = length (elems l)"

text \<open>Modelled from the spec: \<^verbatim>\<open>list_head\<close> of linkedlist.h, the first node of a chain,
  \<^verbatim>\<open>NULL\<close> when the chain is empty.\<close>
definition list_head :: "('a, 'd) linked_list \<Rightarrow> listelmt" where
  "list_head l = (if elems l = [] then None else Some 0)"

text \<open>Modelled from the spec: \<^verbatim>\<open>list_tail\<close> of linkedlist.h, the last node of a chain,
  \<^verbatim>\<open>NULL\<close> when the chain is empty.\<close>
definition list_tail :: "('a, 'd) linked_list \<Rightarrow> listelmt" where
  "list_tail l = (if elems l = [] then None else Some (length (elems l) - 1))"

text \<open>Modelled from the spec: \<^verbatim>\<open>list_next\<close> of linkedlist.h, the node after node \<open>i\<close>,
  \<^verbatim>\<open>NULL\<close> after the last one.\<close>
definition list_next :: "('a, 'd) linked_list \<Rightarrow> nat \<Rightarrow> listelmt" where
  "list_next l i = (if Suc i < length (elems l) then Some (Suc i) else None)"

text \<open>Modelled from the spec: \<^verbatim>\<open>list_data\<close> of linkedlist.h, the value held by node \<open>i\<close>.
  The table calls it on nodes that \<open>list_head\<close> and \<open>list_next\<close> returned, which lie
  inside the chain; the one call on a possibly \<^verbatim>\<open>NULL\<close> node, in \<^verbatim>\<open>chash_lookup\<close>, is
  guarded in the model of that function.\<close>
definition list_data :: "('a, 'd) linked_list \<Rightarrow> nat \<Rightarrow> 'a" where
  "list_data l i = elems l ! i"

text \<open>Modelled from the spec: \<^verbatim>\<open>list_insnxt\<close> of linkedlist.h, "insert-after-a-position";
  after the tail this is the append the table uses, and with no position the value
  becomes the head. \<open>ok\<close> is whether the node's allocation succeeds; the result is the
  status (0, or -1 with the chain untouched) and the chain.\<close>
definition list_insnxt ::
  "bool \<Rightarrow> ('a, 'd) linked_list \<Rightarrow> listelmt \<Rightarrow> 'a \<Rightarrow> int \<times> ('a, 'd) linked_list" where
  "list_insnxt ok l pos v =
     (if \<not> ok then (- 1, l)
      else case pos of
             None \<Rightarrow> (0, l\<lparr>elems := v # elems l\<rparr>)
           | Some i \<Rightarrow> (0, l\<lparr>elems := take (Suc i) (elems l) @ v # drop (Suc i) (elems l)\<rparr>))"

text \<open>Modelled from the spec: \<^verbatim>\<open>list_remnxt\<close> of linkedlist.h,
  "remove-the-node-after-a-position": with no position it removes the head. The removed
  value is handed back through the out parameter and the chain's destructor is not
  called. The result is the status (0, or -1 with the chain untouched when there is no
  such node), the chain, the value written to the out parameter if any, and the values
  handed to the destructor.\<close>
definition list_remnxt ::
  "('a, 'd) linked_list \<Rightarrow> listelmt \<Rightarrow> int \<times> ('a, 'd) linked_list \<times> 'a option \<times> 'a list" where
  "list_remnxt l pos =
     (case pos of
        None \<Rightarrow> (case elems l of
                   [] \<Rightarrow> (- 1, l, None, [])
                 | x # xs \<Rightarrow> (0, l\<lparr>elems := xs\<rparr>, Some x, []))
      | Some i \<Rightarrow>
          (if Suc i < length (elems l)
           then (0, l\<lparr>elems := take (Suc i) (elems l) @ drop (Suc (Suc i)) (elems l)\<rparr>,
                 Some (elems l ! Suc i), [])
           else (- 1, l, None, [])))"

text \<open>Modelled from the spec: \<^verbatim>\<open>list_traverse\<close> of linkedlist.h, "full traversal": the
  values the callback is invoked on, in chain order.\<close>
definition list_traverse :: "('a, 'd) linked_list \<Rightarrow> 'a list" where
  "list_traverse l = elems l"

subsection \<open>The table\<close>

text \<open>
  \<^verbatim>\<open>struct _CHash_\<close>. The field \<^verbatim>\<open>size\<close> is \<open>size'\<close> here. \<^verbatim>\<open>match\<close> returns an
  \<^verbatim>\<open>int\<close> that the code only tests for being nonzero: a \<open>bool\<close>. The destructor is an
  opaque function pointer \<open>'d\<close>. The array \<^verbatim>\<open>table\<close> is the list of its slots, a slot
  being a chain or \<^verbatim>\<open>NULL\<close>; an array that is itself \<^verbatim>\<open>NULL\<close> has no slot.
\<close>

record ('a, 'd) CHash =
  size' :: "32 word"
  buckets :: "32 word"
  hash :: "'a \<Rightarrow> 32 word"
  match :: "'a \<Rightarrow> 'a \<Rightarrow> bool"
  destroy :: "'d"
  table :: "('a, 'd) linked_list option list"

text \<open>\<^verbatim>\<open>int bucket = tbl->hash(data) % tbl->buckets\<close>: the \<^verbatim>\<open>int\<close> hash is converted to
  \<^verbatim>\<open>unsigned int\<close>, the remainder is unsigned, and the result is stored in an \<^verbatim>\<open>int\<close>.\<close>
definition bucket_index :: "32 word \<Rightarrow> 32 word \<Rightarrow> int" where
  "bucket_index h n = sint (h mod n)"

definition bucket_of :: "('a, 'd) CHash \<Rightarrow> 'a \<Rightarrow> error + int" where
  "bucket_of tbl data =
     (if buckets tbl = 0 then Inl DivByZero
      else Inr (bucket_index (hash tbl data) (buckets tbl)))"

text \<open>\<^verbatim>\<open>tbl->table[i]\<close>, read.\<close>
definition slot :: "('a, 'd) CHash \<Rightarrow> int \<Rightarrow> error + ('a, 'd) linked_list option" where
  "slot tbl i =
     (if 0 \<le> i \<and> nat i < length (table tbl) then Inr (table tbl ! nat i)
      else Inl OutOfBounds)"

text \<open>\<^verbatim>\<open>tbl->table[i]\<close>, handed to an operation of the list that reads it.\<close>
definition chain_at :: "('a, 'd) CHash \<Rightarrow> int \<Rightarrow> error + ('a, 'd) linked_list" where
  "chain_at tbl i =
     (case slot tbl i of
        Inl e \<Rightarrow> Inl e
      | Inr None \<Rightarrow> Inl NullDeref
      | Inr (Some l) \<Rightarrow> Inr l)"

subsection \<open>chash_init\<close>

text \<open>\<^verbatim>\<open>calloc(n, sizeof(list *))\<close>: \<open>n\<close> slots, all \<^verbatim>\<open>NULL\<close>, or no array when the
  allocation fails or the count, converted to \<^verbatim>\<open>size_t\<close>, was negative.\<close>
definition calloc_slots :: "bool \<Rightarrow> int \<Rightarrow> ('a, 'd) linked_list option list option" where
  "calloc_slots ok n = (if ok \<and> 0 \<le> n then Some (replicate (nat n) None) else None)"

text \<open>The loop of lines 83 to 86, from index \<open>i\<close> on: the chain is stored in slot \<open>i\<close>
  first and tested for \<^verbatim>\<open>NULL\<close> afterwards. \<open>create_ok i\<close> is whether the \<open>i\<close>-th
  \<^verbatim>\<open>list_create\<close> succeeds.\<close>
function init_loop ::
  "(nat \<Rightarrow> bool) \<Rightarrow> 'd \<Rightarrow> nat \<Rightarrow> nat \<Rightarrow> ('a, 'd) linked_list option list option \<Rightarrow>
   error + ('a, 'd) linked_list option list option" where
  "init_loop create_ok d n i arr =
     (if i < n then
        (case arr of
           None \<Rightarrow> Inl NullDeref
         | Some slots \<Rightarrow>
             if i < length slots then
               (case list_create (create_ok i) d of
                  None \<Rightarrow> Inl AllocFailure
                | Some l \<Rightarrow> init_loop create_ok d n (Suc i) (Some (slots[i := Some l])))
             else Inl OutOfBounds)
      else Inr arr)"
  by pat_completeness auto
termination
  by (relation "measure (\<lambda>(create_ok, d, n, i, arr). n - i)") auto

text \<open>Lines 75 to 88 of \<^verbatim>\<open>chash_init\<close>, given the array that \<^verbatim>\<open>calloc\<close> returned.\<close>
definition chash_init_on ::
  "('a, 'd) linked_list option list option \<Rightarrow> (nat \<Rightarrow> bool) \<Rightarrow> 32 word \<Rightarrow>
   ('a \<Rightarrow> 32 word) \<Rightarrow> ('a \<Rightarrow> 'a \<Rightarrow> bool) \<Rightarrow> 'd \<Rightarrow> error + ('a, 'd) CHash" where
  "chash_init_on arr create_ok sz h m d =
     (case init_loop create_ok d (nat (sint sz)) 0 arr of
        Inl e \<Rightarrow> Inl e
      | Inr arr' \<Rightarrow>
          Inr \<lparr>size' = 0, buckets = sz, hash = h, match = m, destroy = d,
               table = (case arr' of None \<Rightarrow> [] | Some slots \<Rightarrow> slots)\<rparr>)"

text \<open>\<^verbatim>\<open>chash_init\<close>. \<open>malloc_ok\<close>, \<open>calloc_ok\<close> and \<open>create_ok\<close> are the outcomes of its
  allocations; the \<^verbatim>\<open>int size\<close> is the word \<open>sz\<close>. A \<^verbatim>\<open>NULL\<close> result is
  \<open>Inl AllocFailure\<close>.\<close>
definition chash_init ::
  "bool \<Rightarrow> bool \<Rightarrow> (nat \<Rightarrow> bool) \<Rightarrow> 32 word \<Rightarrow>
   ('a \<Rightarrow> 32 word) \<Rightarrow> ('a \<Rightarrow> 'a \<Rightarrow> bool) \<Rightarrow> 'd \<Rightarrow> error + ('a, 'd) CHash" where
  "chash_init malloc_ok calloc_ok create_ok sz h m d =
     (if \<not> malloc_ok then Inl AllocFailure
      else chash_init_on (calloc_slots calloc_ok (sint sz - 1)) create_ok sz h m d)"

subsection \<open>chash_lookup\<close>

text \<open>The loop of lines 193 to 199 from node \<open>e\<close> on: the stored value of the first
  node that \<open>data\<close> matches, if there is one.\<close>
function lookup_loop ::
  "('a \<Rightarrow> 'a \<Rightarrow> bool) \<Rightarrow> 'a \<Rightarrow> ('a, 'd) linked_list \<Rightarrow> listelmt \<Rightarrow> 'a option" where
  "lookup_loop m data l None = None"
| "lookup_loop m data l (Some i) =
     (if m data (list_data l i) then Some (list_data l i)
      else lookup_loop m data l (list_next l i))"
  by pat_completeness auto
termination
  by (relation "measure (\<lambda>(m, data, l, e).
        case e of None \<Rightarrow> 0 | Some i \<Rightarrow> Suc (length (elems l) - i))")
     (auto simp: list_next_def)

text \<open>\<^verbatim>\<open>chash_lookup\<close>. The result is the returned \<^verbatim>\<open>int\<close> and the content of \<^verbatim>\<open>*data\<close>
  after the call.\<close>
definition chash_lookup :: "('a, 'd) CHash \<Rightarrow> 'a option \<Rightarrow> error + int \<times> 'a option" where
  "chash_lookup tbl data =
     (case data of
        Some d \<Rightarrow>
          (case bucket_of tbl d of
             Inl e \<Rightarrow> Inl e
           | Inr bucket \<Rightarrow>
               (case chain_at tbl bucket of
                  Inl e \<Rightarrow> Inl e
                | Inr l \<Rightarrow>
                    (case lookup_loop (match tbl) d l (list_head l) of
                       Some x \<Rightarrow> Inr (1, Some x)
                     | None \<Rightarrow> Inr (0, data))))
      | None \<Rightarrow>
          (case chain_at tbl 0 of
             Inl e \<Rightarrow> Inl e
           | Inr l \<Rightarrow>
               (case list_head l of
                  None \<Rightarrow> Inl NullDeref
                | Some i \<Rightarrow> Inr (1, Some (list_data l i)))))"

subsection \<open>chash_insert\<close>

text \<open>\<^verbatim>\<open>chash_insert\<close>. \<open>alloc_ok\<close> is whether the allocation inside \<^verbatim>\<open>list_insnxt\<close>
  succeeds. The result is the returned \<^verbatim>\<open>int\<close> and the table after the call.\<close>
definition chash_insert ::
  "bool \<Rightarrow> ('a, 'd) CHash \<Rightarrow> 'a option \<Rightarrow> error + int \<times> ('a, 'd) CHash" where
  "chash_insert alloc_ok tbl data =
     (case data of
        None \<Rightarrow> Inr (- 1, tbl)
      | Some d \<Rightarrow>
          (case chash_lookup tbl (Some d) of
             Inl e \<Rightarrow> Inl e
           | Inr (found, tmp) \<Rightarrow>
               if found \<noteq> 0 then Inr (1, tbl)
               else
                 (case bucket_of tbl d of
                    Inl e \<Rightarrow> Inl e
                  | Inr bucket \<Rightarrow>
                      (case slot tbl bucket of
                         Inl e \<Rightarrow> Inl e
                       | Inr None \<Rightarrow> Inr (- 1, tbl)
                       | Inr (Some tmplist) \<Rightarrow>
                           (case list_insnxt alloc_ok tmplist (list_tail tmplist) d of
                              (r, l') \<Rightarrow>
                                (let tbl' = tbl\<lparr>table := (table tbl)[nat bucket := Some l']\<rparr>
                                 in if r = 0 then Inr (0, tbl'\<lparr>size' := size' tbl' + 1\<rparr>)
                                    else Inr (0, tbl')))))))"

subsection \<open>chash_remove\<close>

text \<open>The loop of lines 147 to 158 from node \<open>e\<close> on, \<open>prev\<close> being the node before it:
  at the first node that \<open>data\<close> matches, the value of \<open>prev\<close>.\<close>
function remove_loop ::
  "('a \<Rightarrow> 'a \<Rightarrow> bool) \<Rightarrow> 'a \<Rightarrow> ('a, 'd) linked_list \<Rightarrow> listelmt \<Rightarrow> listelmt \<Rightarrow>
   listelmt option" where
  "remove_loop m data l prev None = None"
| "remove_loop m data l prev (Some i) =
     (if m data (list_data l i) then Some prev
      else remove_loop m data l (Some i) (list_next l i))"
  by pat_completeness auto
termination
  by (relation "measure (\<lambda>(m, data, l, prev, e).
        case e of None \<Rightarrow> 0 | Some i \<Rightarrow> Suc (length (elems l) - i))")
     (auto simp: list_next_def)

text \<open>The loop of lines 161 to 163 from index \<open>i\<close> on: the index it stops at. The
  \<^verbatim>\<open>int i\<close> is a \<open>nat\<close>: it starts at 0 and stays below \<^verbatim>\<open>tbl->buckets\<close>, to which it is
  compared as an \<^verbatim>\<open>unsigned int\<close>.\<close>
function find_nonempty :: "('a, 'd) CHash \<Rightarrow> nat \<Rightarrow> error + nat" where
  "find_nonempty tbl i =
     (if i < unat (buckets tbl) then
        (case chain_at tbl (int i) of
           Inl e \<Rightarrow> Inl e
         | Inr l \<Rightarrow> if list_size l > 0 then Inr i else find_nonempty tbl (Suc i))
      else Inr i)"
  by pat_completeness auto
termination
  by (relation "measure (\<lambda>(tbl, i). unat (buckets tbl) - i)") auto

text \<open>\<^verbatim>\<open>chash_remove\<close>. The result is the returned \<^verbatim>\<open>int\<close>, the content of \<^verbatim>\<open>*data\<close>
  after the call, the table after the call, and the values that were handed to the
  destructor. The status of \<^verbatim>\<open>list_remnxt\<close> is ignored, as in the source.\<close>
definition chash_remove ::
  "('a, 'd) CHash \<Rightarrow> 'a option \<Rightarrow> error + int \<times> 'a option \<times> ('a, 'd) CHash \<times> 'a list" where
  "chash_remove tbl data =
     (if size' tbl = 0 then Inr (- 1, data, tbl, [])
      else
        (case data of
           Some d \<Rightarrow>
             (case bucket_of tbl d of
                Inl e \<Rightarrow> Inl e
              | Inr bucket \<Rightarrow>
                  (case chain_at tbl bucket of
                     Inl e \<Rightarrow> Inl e
                   | Inr l \<Rightarrow>
                       (case remove_loop (match tbl) d l None (list_head l) of
                          Some prev \<Rightarrow>
                            (case list_remnxt l prev of
                               (r, l', out, destroyed) \<Rightarrow>
                                 Inr (0, (case out of None \<Rightarrow> data | Some x \<Rightarrow> Some x),
                                      tbl\<lparr>table := (table tbl)[nat bucket := Some l'],
                                          size' := size' tbl - 1\<rparr>,
                                      destroyed))
                        | None \<Rightarrow> Inr (- 1, data, tbl, []))))
         | None \<Rightarrow>
             (case find_nonempty tbl 0 of
                Inl e \<Rightarrow> Inl e
              | Inr i \<Rightarrow>
                  (case chain_at tbl (int i) of
                     Inl e \<Rightarrow> Inl e
                   | Inr l \<Rightarrow>
                       (case list_remnxt l None of
                          (r, l', out, destroyed) \<Rightarrow>
                            Inr (0, (case out of None \<Rightarrow> data | Some x \<Rightarrow> Some x),
                                 tbl\<lparr>table := (table tbl)[i := Some l'],
                                     size' := size' tbl - 1\<rparr>,
                                 destroyed))))))"

subsection \<open>chash_traverse\<close>

text \<open>The loop of \<^verbatim>\<open>chash_traverse\<close> from index \<open>i\<close> on: the values the callback is
  invoked on, in order.\<close>
function traverse_loop :: "('a, 'd) CHash \<Rightarrow> nat \<Rightarrow> error + 'a list" where
  "traverse_loop tbl i =
     (if i < unat (buckets tbl) then
        (case chain_at tbl (int i) of
           Inl e \<Rightarrow> Inl e
         | Inr l \<Rightarrow>
             (case traverse_loop tbl (Suc i) of
                Inl e \<Rightarrow> Inl e
              | Inr vs \<Rightarrow> Inr (list_traverse l @ vs)))
      else Inr [])"
  by pat_completeness auto
termination
  by (relation "measure (\<lambda>(tbl, i). unat (buckets tbl) - i)") auto

definition chash_traverse :: "('a, 'd) CHash \<Rightarrow> error + 'a list" where
  "chash_traverse tbl = traverse_loop tbl 0"

subsection \<open>Well-formed tables\<close>

text \<open>The values of each bucket, in bucket order, a \<^verbatim>\<open>NULL\<close> slot holding none.\<close>
definition chain_elems :: "('a, 'd) CHash \<Rightarrow> 'a list list" where
  "chain_elems tbl = map (\<lambda>s. case s of None \<Rightarrow> [] | Some l \<Rightarrow> elems l) (table tbl)"

text \<open>The sum of the lengths of all bucket chains.\<close>
definition chain_total :: "('a, 'd) CHash \<Rightarrow> nat" where
  "chain_total tbl = sum_list (map length (chain_elems tbl))"

text \<open>The shape construction gives a table: a positive bucket count that came from an
  \<^verbatim>\<open>int\<close>, as many slots as buckets, and a chain in every slot.\<close>
definition table_ok :: "('a, 'd) CHash \<Rightarrow> bool" where
  "table_ok tbl \<longleftrightarrow>
     0 < buckets tbl \<and> uint (buckets tbl) \<le> INT_MAX \<and>
     length (table tbl) = unat (buckets tbl) \<and> None \<notin> set (table tbl)"

text \<open>The size invariant. The field is an \<^verbatim>\<open>unsigned int\<close>, so it holds the count
  modulo \<open>2 ^ 32\<close>.\<close>
definition size_inv :: "('a, 'd) CHash \<Rightarrow> bool" where
  "size_inv tbl \<longleftrightarrow> size' tbl = of_nat (chain_total tbl)"

text \<open>Every stored value lies in the bucket its hash selects.\<close>
definition placed :: "('a, 'd) CHash \<Rightarrow> bool" where
  "placed tbl \<longleftrightarrow>
     (\<forall>b < length (chain_elems tbl). \<forall>x \<in> set (chain_elems tbl ! b).
        bucket_index (hash tbl x) (buckets tbl) = int b)"

text \<open>Within a chain, no value matches a value stored before it: \<^verbatim>\<open>chash_insert\<close> has
  compared each value with those already in its bucket.\<close>
definition chain_fresh :: "('a \<Rightarrow> 'a \<Rightarrow> bool) \<Rightarrow> 'a list \<Rightarrow> bool" where
  "chain_fresh m xs \<longleftrightarrow> sorted_wrt (\<lambda>x y. \<not> m y x) xs"

definition fresh :: "('a, 'd) CHash \<Rightarrow> bool" where
  "fresh tbl \<longleftrightarrow> (\<forall>xs \<in> set (chain_elems tbl). chain_fresh (match tbl) xs)"

text \<open>No two stored values, at different places of the table, match each other.\<close>
definition unique :: "('a, 'd) CHash \<Rightarrow> bool" where
  "unique tbl \<longleftrightarrow>
     (\<forall>b < length (chain_elems tbl). \<forall>i < length (chain_elems tbl ! b).
      \<forall>b' < length (chain_elems tbl). \<forall>i' < length (chain_elems tbl ! b').
        (b, i) \<noteq> (b', i') \<longrightarrow>
        \<not> (match tbl (chain_elems tbl ! b ! i) (chain_elems tbl ! b' ! i') \<and>
           match tbl (chain_elems tbl ! b' ! i') (chain_elems tbl ! b ! i)))"

text \<open>The contract between the two callbacks: values that match have the same hash.\<close>
definition consistent :: "('a, 'd) CHash \<Rightarrow> bool" where
  "consistent tbl \<longleftrightarrow> (\<forall>a b. match tbl a b \<longrightarrow> hash tbl a = hash tbl b)"

text \<open>What construction establishes and insertion and removal keep.\<close>
definition table_inv :: "('a, 'd) CHash \<Rightarrow> bool" where
  "table_inv tbl \<longleftrightarrow> table_ok tbl \<and> size_inv tbl \<and> placed tbl \<and> fresh tbl"

text \<open>The tables that construction, insertion and removal lead to. \<^verbatim>\<open>chash_init\<close> asks
  \<^verbatim>\<open>calloc\<close> for one slot less than it fills; the tables considered here are those that
  its lines 75 to 88 build on an array of \<^verbatim>\<open>size\<close> slots.\<close>
inductive reachable :: "('a, 'd) CHash \<Rightarrow> bool" where
  reach_init:
    "0 < sint sz \<Longrightarrow>
     chash_init_on (calloc_slots True (sint sz)) create_ok sz h m d = Inr tbl \<Longrightarrow>
     reachable tbl"
| reach_insert:
    "reachable tbl \<Longrightarrow> chash_insert alloc_ok tbl data = Inr (r, tbl') \<Longrightarrow> reachable tbl'"
| reach_remove:
    "reachable tbl \<Longrightarrow> chash_remove tbl data = Inr (r, out, tbl', ds) \<Longrightarrow> reachable tbl'"

text \<open>The index, as a position of the array, of the bucket that \<open>v\<close> hashes to.\<close>
definition bucket_nat :: "('a, 'd) CHash \<Rightarrow> 'a \<Rightarrow> nat" where
  "bucket_nat tbl v = nat (bucket_index (hash tbl v) (buckets tbl))"

text \<open>The table with the values of bucket \<open>b\<close> replaced by \<open>xs\<close>, every other field and
  every other chain as before.\<close>
definition put_chain :: "('a, 'd) CHash \<Rightarrow> nat \<Rightarrow> 'a list \<Rightarrow> ('a, 'd) CHash" where
  "put_chain tbl b xs =
     tbl\<lparr>table := (table tbl)[b := map_option (\<lambda>l. l\<lparr>elems := xs\<rparr>) (table tbl ! b)]\<rparr>"

text \<open>The position of the first value of \<open>xs\<close> that \<open>v\<close> matches, \<open>length xs\<close> if there
  is none.\<close>
definition first_match :: "('a \<Rightarrow> 'a \<Rightarrow> bool) \<Rightarrow> 'a \<Rightarrow> 'a list \<Rightarrow> nat" where
  "first_match m v xs = length (takeWhile (\<lambda>x. \<not> m v x) xs)"

subsection \<open>Example tables\<close>

text \<open>Four buckets over the naturals, \<open>hash x = x\<close> and \<open>match a b = (a = b)\<close>: empty,
  and holding 1, 5 and 9, which all hash to bucket 1.\<close>
definition empty_chain :: "(nat, unit) linked_list" where
  "empty_chain = \<lparr>elems = [], list_destroy_fn = ()\<rparr>"

definition example_empty :: "(nat, unit) CHash" where
  "example_empty =
     \<lparr>size' = 0, buckets = 4, hash = of_nat, match = (=), destroy = (),
      table = [Some empty_chain, Some empty_chain, Some empty_chain, Some empty_chain]\<rparr>"

definition example_159 :: "(nat, unit) CHash" where
  "example_159 =
     \<lparr>size' = 3, buckets = 4, hash = of_nat, match = (=), destroy = (),
      table = [Some empty_chain, Some (empty_chain\<lparr>elems := [1, 5, 9]\<rparr>),
               Some empty_chain, Some empty_chain]\<rparr>"

text \<open>One bucket, every hash 0, holding the naturals below \<open>n\<close> in the order of their
  insertion, with the size field that \<open>n\<close> increments give.\<close>
definition full_table :: "nat \<Rightarrow> (nat, unit) CHash" where
  "full_table n =
     \<lparr>size' = of_nat n, buckets = 1, hash = (\<lambda>x. 0), match = (=), destroy = (),
      table = [Some (empty_chain\<lparr>elems := [0..<n]\<rparr>)]\<rparr>"

declare init_loop.simps [simp del]
declare find_nonempty.simps [simp del]
declare traverse_loop.simps [simp del]

section \<open>Properties\<close>

subsection \<open>Bucket indices\<close>

lemma sint_small:
  fixes w :: "32 word"
  assumes "uint w < 2 ^ 31"
  shows "sint w = uint w"
proof -
  have "- (2 ^ 31) \<le> uint w"
    by (rule order_trans [of _ 0]) simp_all
  then have "signed_take_bit (31::nat) (uint w) = uint w"
    using assms by (rule signed_take_bit_int_eq_self)
  then show ?thesis by (simp add: sint_uint)
qed

lemma bucket_index_range:
  assumes "0 < n" "uint n \<le> INT_MAX"
  shows "0 \<le> bucket_index h n \<and> bucket_index h n < uint n"
proof -
  have "h mod n < n" using assms(1) by (simp add: word_mod_less_divisor)
  then have u: "uint (h mod n) < uint n" by (simp add: word_less_def)
  then have "uint (h mod n) < 2 ^ 31" using assms(2) by (simp add: INT_MAX_def)
  then have "sint (h mod n) = uint (h mod n)" by (rule sint_small)
  then show ?thesis using u by (simp add: bucket_index_def)
qed

lemma bucket_nat_less:
  assumes "table_ok tbl"
  shows "bucket_nat tbl v < length (table tbl)"
proof -
  have r: "0 \<le> bucket_index (hash tbl v) (buckets tbl) \<and>
        bucket_index (hash tbl v) (buckets tbl) < uint (buckets tbl)"
    using assms by (intro bucket_index_range) (simp_all add: table_ok_def)
  then show ?thesis using assms by (simp add: bucket_nat_def table_ok_def nat_less_iff)
qed

lemma bucket_of_ok:
  assumes "table_ok tbl"
  shows "bucket_of tbl v = Inr (int (bucket_nat tbl v))"
proof -
  have "0 \<le> bucket_index (hash tbl v) (buckets tbl)"
    using assms bucket_index_range [of "buckets tbl" "hash tbl v"] by (simp add: table_ok_def)
  moreover have "buckets tbl \<noteq> 0" using assms by (auto simp: table_ok_def)
  ultimately show ?thesis by (simp add: bucket_of_def bucket_nat_def)
qed

lemma slot_Some:
  assumes "table_ok tbl" "b < length (table tbl)"
  shows "\<exists>l. table tbl ! b = Some l \<and> chain_elems tbl ! b = elems l"
proof -
  have "table tbl ! b \<in> set (table tbl)" using assms(2) by simp
  then have "table tbl ! b \<noteq> None" using assms(1) unfolding table_ok_def by metis
  then show ?thesis using assms(2) by (auto simp: chain_elems_def)
qed

lemma slot_ok:
  assumes "b < length (table tbl)" "table tbl ! b = Some l"
  shows "slot tbl (int b) = Inr (Some l)" and "chain_at tbl (int b) = Inr l"
  using assms by (simp_all add: slot_def chain_at_def)

subsection \<open>The scans of a chain\<close>

lemma lookup_loop_drop:
  "i < length (elems l) \<Longrightarrow> lookup_loop m v l (Some i) = find (m v) (drop i (elems l))"
proof (induction "length (elems l) - i" arbitrary: i)
  case 0
  then show ?case by simp
next
  case (Suc n)
  have d: "drop i (elems l) = elems l ! i # drop (Suc i) (elems l)"
    using Suc.prems by (simp add: Cons_nth_drop_Suc)
  show ?case
  proof (cases "Suc i < length (elems l)")
    case True
    then have "lookup_loop m v l (Some (Suc i)) = find (m v) (drop (Suc i) (elems l))"
      using Suc.hyps by (intro Suc.hyps(1)) simp_all
    then show ?thesis using True d by (simp add: list_next_def list_data_def)
  next
    case False
    then show ?thesis using d by (simp add: list_next_def list_data_def)
  qed
qed

lemma lookup_loop_head: "lookup_loop m v l (list_head l) = find (m v) (elems l)"
  using lookup_loop_drop [of 0 l m v] by (cases "elems l") (simp_all add: list_head_def)

lemma first_match_le: "first_match m v xs \<le> length xs"
  by (simp add: first_match_def length_takeWhile_le)

lemma first_match_hit:
  "first_match m v xs < length xs \<Longrightarrow> m v (xs ! first_match m v xs)"
  unfolding first_match_def using nth_length_takeWhile [of "\<lambda>x. \<not> m v x" xs] by simp

lemma first_match_before:
  "j < first_match m v xs \<Longrightarrow> \<not> m v (xs ! j)"
  unfolding first_match_def
  using nth_mem [of j "takeWhile (\<lambda>x. \<not> m v x) xs"] takeWhile_nth [of j "\<lambda>x. \<not> m v x" xs]
  by (auto dest: set_takeWhileD)

lemma first_match_none:
  "first_match m v xs = length xs \<longleftrightarrow> (\<forall>x \<in> set xs. \<not> m v x)"
  unfolding first_match_def by (metis takeWhile_eq_all_conv takeWhile_eq_take take_all_iff order_refl)

lemma first_match_unique:
  assumes "k < length xs" "m v (xs ! k)" "\<forall>j < k. \<not> m v (xs ! j)"
  shows "first_match m v xs = k"
proof (rule antisym)
  show "first_match m v xs \<le> k"
    using first_match_before [of k m v xs] assms(2) by (meson not_le_imp_less)
  show "k \<le> first_match m v xs"
  proof (rule ccontr)
    assume "\<not> k \<le> first_match m v xs"
    then have lt: "first_match m v xs < k" by simp
    then have "first_match m v xs < length xs" using assms(1) by simp
    then have "m v (xs ! first_match m v xs)" by (rule first_match_hit)
    then show False using assms(3) lt by blast
  qed
qed

lemma find_first_match:
  "find (m v) xs = (if first_match m v xs < length xs then Some (xs ! first_match m v xs) else None)"
  by (induction xs) (simp_all add: first_match_def)

lemma remove_loop_hit:
  assumes "i \<le> k" "k < length (elems l)" "m v (elems l ! k)"
    and "\<forall>j. i \<le> j \<and> j < k \<longrightarrow> \<not> m v (elems l ! j)"
  shows "remove_loop m v l prev (Some i) = Some (if k = i then prev else Some (k - 1))"
  using assms
proof (induction "k - i" arbitrary: i prev)
  case 0
  then show ?case by (simp add: list_data_def)
next
  case (Suc n)
  then have lt: "i < k" by simp
  then have nm: "\<not> m v (elems l ! i)" using Suc.prems(4) by simp
  have nx: "list_next l i = Some (Suc i)" using lt Suc.prems(2) by (simp add: list_next_def)
  have "remove_loop m v l (Some i) (Some (Suc i)) =
        Some (if k = Suc i then Some i else Some (k - 1))"
    using Suc.hyps(2) Suc.prems lt by (intro Suc.hyps(1)) auto
  then show ?case using nm nx lt by (auto simp: list_data_def)
qed

lemma remove_loop_miss:
  assumes "i < length (elems l)" "\<forall>j. i \<le> j \<and> j < length (elems l) \<longrightarrow> \<not> m v (elems l ! j)"
  shows "remove_loop m v l prev (Some i) = None"
  using assms
proof (induction "length (elems l) - i" arbitrary: i prev)
  case 0
  then show ?case by simp
next
  case (Suc n)
  have nm: "\<not> m v (elems l ! i)" using Suc.prems by simp
  show ?case
  proof (cases "Suc i < length (elems l)")
    case True
    then have "remove_loop m v l (Some i) (Some (Suc i)) = None"
      using Suc.hyps(2) Suc.prems by (intro Suc.hyps(1)) auto
    then show ?thesis using nm True by (simp add: list_data_def list_next_def)
  next
    case False
    then show ?thesis using nm by (simp add: list_data_def list_next_def)
  qed
qed

lemma remove_loop_head:
  "remove_loop m v l None (list_head l) =
     (let k = first_match m v (elems l)
      in if k < length (elems l) then Some (if k = 0 then None else Some (k - 1)) else None)"
proof (cases "elems l = []")
  case True
  then show ?thesis by (simp add: list_head_def first_match_def)
next
  case False
  let ?k = "first_match m v (elems l)"
  show ?thesis
  proof (cases "?k < length (elems l)")
    case True
    have "remove_loop m v l None (Some 0) = Some (if ?k = 0 then None else Some (?k - 1))"
      using True first_match_hit [OF True] first_match_before [of _ m v "elems l"]
      by (intro remove_loop_hit) auto
    then show ?thesis using True False by (simp add: list_head_def Let_def)
  next
    case False2: False
    then have "?k = length (elems l)" using first_match_le [of m v "elems l"] by simp
    then have "\<forall>x \<in> set (elems l). \<not> m v x" by (simp add: first_match_none)
    then have "remove_loop m v l None (Some 0) = None"
      using False by (intro remove_loop_miss) auto
    then show ?thesis using False False2 by (simp add: list_head_def Let_def)
  qed
qed

lemma list_remnxt_at:
  assumes "k < length (elems l)"
  shows "list_remnxt l (if k = 0 then None else Some (k - 1)) =
           (0, l\<lparr>elems := take k (elems l) @ drop (Suc k) (elems l)\<rparr>, Some (elems l ! k), [])"
proof (cases k)
  case 0
  then show ?thesis using assms
    by (cases "elems l") (simp_all add: list_remnxt_def)
next
  case (Suc n)
  then show ?thesis using assms by (simp add: list_remnxt_def)
qed

lemma list_insnxt_tail:
  "list_insnxt ok l (list_tail l) v = (if ok then (0, l\<lparr>elems := elems l @ [v]\<rparr>) else (- 1, l))"
  by (cases "elems l = []") (simp_all add: list_insnxt_def list_tail_def)

subsection \<open>The operations on a well-formed table\<close>

lemma chash_lookup_ok:
  assumes "table_ok tbl"
  shows "chash_lookup tbl (Some v) =
           (case find (match tbl v) (chain_elems tbl ! bucket_nat tbl v) of
              Some x \<Rightarrow> Inr (1, Some x)
            | None \<Rightarrow> Inr (0, Some v))"
proof -
  let ?b = "bucket_nat tbl v"
  have b: "?b < length (table tbl)" using assms by (rule bucket_nat_less)
  then obtain l where l: "table tbl ! ?b = Some l" "chain_elems tbl ! ?b = elems l"
    using slot_Some [OF assms b] by blast
  show ?thesis
    by (simp add: chash_lookup_def bucket_of_ok [OF assms] slot_ok [OF b l(1)] l(2)
        lookup_loop_head)
qed

lemma put_chain_same:
  assumes "b < length (table tbl)" "table tbl ! b = Some l"
  shows "tbl\<lparr>table := (table tbl)[b := Some (l\<lparr>elems := xs\<rparr>)]\<rparr> = put_chain tbl b xs"
  using assms by (simp add: put_chain_def)

lemma chash_insert_ok:
  assumes "table_ok tbl"
  shows "chash_insert alloc_ok tbl (Some v) =
           (case find (match tbl v) (chain_elems tbl ! bucket_nat tbl v) of
              Some x \<Rightarrow> Inr (1, tbl)
            | None \<Rightarrow>
                if alloc_ok
                then Inr (0, (put_chain tbl (bucket_nat tbl v)
                               (chain_elems tbl ! bucket_nat tbl v @ [v]))
                             \<lparr>size' := size' tbl + 1\<rparr>)
                else Inr (0, tbl))"
proof -
  let ?b = "bucket_nat tbl v"
  have b: "?b < length (table tbl)" using assms by (rule bucket_nat_less)
  then obtain l where l: "table tbl ! ?b = Some l" "chain_elems tbl ! ?b = elems l"
    using slot_Some [OF assms b] by blast
  have "(table tbl)[?b := Some l] = table tbl"
    using l(1) list_update_id [of "table tbl" ?b] by simp
  then have same: "tbl\<lparr>table := (table tbl)[?b := Some l]\<rparr> = tbl" by simp
  show ?thesis
  proof (cases "find (match tbl v) (elems l)")
    case None
    then show ?thesis
      using put_chain_same [OF b l(1), of "elems l @ [v]"] same
      by (simp add: chash_insert_def chash_lookup_ok [OF assms] bucket_of_ok [OF assms]
          slot_ok [OF b l(1)] l(2) list_insnxt_tail)
  next
    case (Some x)
    then show ?thesis
      by (simp add: chash_insert_def chash_lookup_ok [OF assms] l(2))
  qed
qed

lemma chash_remove_ok:
  assumes "table_ok tbl" "size' tbl \<noteq> 0"
  shows "chash_remove tbl (Some v) =
           (let b = bucket_nat tbl v; xs = chain_elems tbl ! b; k = first_match (match tbl) v xs
            in if k < length xs
               then Inr (0, Some (xs ! k),
                         (put_chain tbl b (take k xs @ drop (Suc k) xs))
                           \<lparr>size' := size' tbl - 1\<rparr>, [])
               else Inr (- 1, Some v, tbl, []))"
proof -
  let ?b = "bucket_nat tbl v"
  have b: "?b < length (table tbl)" using assms(1) by (rule bucket_nat_less)
  then obtain l where l: "table tbl ! ?b = Some l" "chain_elems tbl ! ?b = elems l"
    using slot_Some [OF assms(1) b] by blast
  let ?k = "first_match (match tbl) v (elems l)"
  show ?thesis
  proof (cases "?k < length (elems l)")
    case True
    then show ?thesis
      using assms(2) put_chain_same [OF b l(1), of "take ?k (elems l) @ drop (Suc ?k) (elems l)"]
        list_remnxt_at [OF True]
      by (simp add: chash_remove_def bucket_of_ok [OF assms(1)] slot_ok [OF b l(1)] l(2)
          remove_loop_head Let_def)
  next
    case False
    then show ?thesis
      using assms(2)
      by (simp add: chash_remove_def bucket_of_ok [OF assms(1)] slot_ok [OF b l(1)] l(2)
          remove_loop_head Let_def)
  qed
qed

subsection \<open>The example tables\<close>

lemma example_empty_ok: "table_ok example_empty"
  by (simp add: table_ok_def example_empty_def INT_MAX_def)

lemma example_159_ok: "table_ok example_159"
  by (simp add: table_ok_def example_159_def INT_MAX_def)

lemma example_bucket_5: "bucket_nat example_empty 5 = 1" "bucket_nat example_159 5 = 1"
  by (simp_all add: bucket_nat_def bucket_index_def example_empty_def example_159_def)

subsection \<open>Replacing the values of a bucket\<close>

lemma put_chain_fields [simp]:
  "size' (put_chain tbl b xs) = size' tbl"
  "buckets (put_chain tbl b xs) = buckets tbl"
  "hash (put_chain tbl b xs) = hash tbl"
  "match (put_chain tbl b xs) = match tbl"
  "destroy (put_chain tbl b xs) = destroy tbl"
  "length (table (put_chain tbl b xs)) = length (table tbl)"
  by (simp_all add: put_chain_def)

lemma size_update_views [simp]:
  "chain_elems (tbl\<lparr>size' := s\<rparr>) = chain_elems tbl"
  "chain_total (tbl\<lparr>size' := s\<rparr>) = chain_total tbl"
  "table_ok (tbl\<lparr>size' := s\<rparr>) = table_ok tbl"
  "placed (tbl\<lparr>size' := s\<rparr>) = placed tbl"
  "fresh (tbl\<lparr>size' := s\<rparr>) = fresh tbl"
  by (simp_all add: chain_elems_def chain_total_def table_ok_def placed_def fresh_def)

lemma length_chain_elems [simp]: "length (chain_elems tbl) = length (table tbl)"
  by (simp add: chain_elems_def)

lemma chain_elems_put_chain:
  assumes "table_ok tbl" "b < length (table tbl)"
  shows "chain_elems (put_chain tbl b xs) = (chain_elems tbl)[b := xs]"
proof -
  obtain l where "table tbl ! b = Some l" using slot_Some [OF assms] by blast
  then show ?thesis by (simp add: chain_elems_def put_chain_def map_update)
qed

lemma table_ok_put_chain:
  assumes "table_ok tbl" "b < length (table tbl)"
  shows "table_ok (put_chain tbl b xs)"
proof -
  obtain l where l: "table tbl ! b = Some l" using slot_Some [OF assms] by blast
  have "set ((table tbl)[b := Some (l\<lparr>elems := xs\<rparr>)]) \<subseteq>
        insert (Some (l\<lparr>elems := xs\<rparr>)) (set (table tbl))"
    by (rule set_update_subset_insert)
  then have "None \<notin> set ((table tbl)[b := Some (l\<lparr>elems := xs\<rparr>)])"
    using assms(1) by (auto simp: table_ok_def)
  then show ?thesis using assms(1) l by (simp add: table_ok_def put_chain_def)
qed

lemma chain_total_put_chain:
  assumes "table_ok tbl" "b < length (table tbl)"
  shows "chain_total (put_chain tbl b xs) + length (chain_elems tbl ! b) =
         chain_total tbl + length xs"
proof -
  let ?ns = "map length (chain_elems tbl)"
  have b: "b < length ?ns" using assms(2) by simp
  have "sum_list (?ns[b := length xs]) = sum_list ?ns + length xs - ?ns ! b"
    using b by (rule sum_list_update)
  moreover have "?ns ! b \<le> sum_list ?ns" using b by (rule elem_le_sum_list)
  ultimately show ?thesis
    using assms(2) by (simp add: chain_total_def chain_elems_put_chain [OF assms] map_update)
qed

lemma chain_le_total:
  "b < length (table tbl) \<Longrightarrow> length (chain_elems tbl ! b) \<le> chain_total tbl"
  using elem_le_sum_list [of b "map length (chain_elems tbl)"] by (simp add: chain_total_def)

lemma bucket_nat_int:
  assumes "table_ok tbl"
  shows "bucket_index (hash tbl v) (buckets tbl) = int (bucket_nat tbl v)"
  using assms bucket_index_range [of "buckets tbl" "hash tbl v"]
  by (simp add: table_ok_def bucket_nat_def)

subsection \<open>The invariant\<close>

lemma chain_fresh_snoc:
  "chain_fresh m (xs @ [v]) \<longleftrightarrow> chain_fresh m xs \<and> (\<forall>x \<in> set xs. \<not> m v x)"
  by (simp add: chain_fresh_def sorted_wrt_append)

lemma chain_fresh_remove:
  assumes "chain_fresh m xs" "k < length xs"
  shows "chain_fresh m (take k xs @ drop (Suc k) xs)"
proof -
  have "xs = take k xs @ xs ! k # drop (Suc k) xs"
    using assms(2) by (rule id_take_nth_drop)
  then have "sorted_wrt (\<lambda>x y. \<not> m y x) (take k xs @ xs ! k # drop (Suc k) xs)"
    using assms(1) by (simp add: chain_fresh_def)
  then show ?thesis by (simp add: chain_fresh_def sorted_wrt_append)
qed

lemma set_remove_subset: "set (take k xs @ drop (Suc k) xs) \<subseteq> set xs"
  using set_take_subset [of k xs] set_drop_subset [of "Suc k" xs] by auto

lemma table_inv_insert:
  assumes inv: "table_inv tbl" and miss: "find (match tbl v) (chain_elems tbl ! bucket_nat tbl v) = None"
  shows "table_inv ((put_chain tbl (bucket_nat tbl v) (chain_elems tbl ! bucket_nat tbl v @ [v]))
                     \<lparr>size' := size' tbl + 1\<rparr>)"
proof -
  let ?b = "bucket_nat tbl v"
  let ?xs = "chain_elems tbl ! ?b"
  let ?t = "put_chain tbl ?b (?xs @ [v])"
  have ok: "table_ok tbl" using inv by (simp add: table_inv_def)
  have b: "?b < length (table tbl)" using ok by (rule bucket_nat_less)
  have ce: "chain_elems ?t = (chain_elems tbl)[?b := ?xs @ [v]]"
    using ok b by (rule chain_elems_put_chain)
  have 1: "table_ok ?t" using ok b by (rule table_ok_put_chain)
  have "chain_total ?t + length ?xs = chain_total tbl + length (?xs @ [v])"
    using ok b by (rule chain_total_put_chain)
  then have "chain_total ?t = Suc (chain_total tbl)" by simp
  then have 2: "size_inv (?t\<lparr>size' := size' tbl + 1\<rparr>)"
    using inv by (simp add: size_inv_def table_inv_def)
  have 3: "placed ?t"
    unfolding placed_def
  proof (intro allI impI ballI)
    fix c x assume c: "c < length (chain_elems ?t)" and x: "x \<in> set (chain_elems ?t ! c)"
    show "bucket_index (hash ?t x) (buckets ?t) = int c"
    proof (cases "c = ?b")
      case True
      then have "x \<in> set ?xs \<or> x = v" using x b by (auto simp: ce)
      then show ?thesis
      proof
        assume "x \<in> set ?xs"
        then show ?thesis using inv b True by (simp add: table_inv_def placed_def)
      next
        assume "x = v"
        then show ?thesis using True bucket_nat_int [OF ok, of v] by simp
      qed
    next
      case False
      then have "x \<in> set (chain_elems tbl ! c)" using x by (simp add: ce)
      then show ?thesis using inv c by (simp add: table_inv_def placed_def)
    qed
  qed
  have 4: "fresh ?t"
    unfolding fresh_def
  proof
    fix ys assume "ys \<in> set (chain_elems ?t)"
    then have "ys = ?xs @ [v] \<or> ys \<in> set (chain_elems tbl)"
      using set_update_subset_insert [of "chain_elems tbl" ?b "?xs @ [v]"] by (auto simp: ce)
    then show "chain_fresh (match ?t) ys"
    proof
      assume ys: "ys = ?xs @ [v]"
      have "?xs \<in> set (chain_elems tbl)" using b by simp
      then have "chain_fresh (match tbl) ?xs" using inv by (simp add: table_inv_def fresh_def)
      moreover have "\<forall>x \<in> set ?xs. \<not> match tbl v x" using miss by (simp add: find_None_iff)
      ultimately show ?thesis using ys by (simp add: chain_fresh_snoc)
    next
      assume "ys \<in> set (chain_elems tbl)"
      then show ?thesis using inv by (simp add: table_inv_def fresh_def)
    qed
  qed
  show ?thesis using 1 2 3 4 by (simp add: table_inv_def)
qed

lemma table_inv_remove:
  assumes inv: "table_inv tbl" and b: "b < length (table tbl)"
    and k: "k < length (chain_elems tbl ! b)"
  shows "table_inv ((put_chain tbl b (take k (chain_elems tbl ! b) @ drop (Suc k) (chain_elems tbl ! b)))
                     \<lparr>size' := size' tbl - 1\<rparr>)"
proof -
  let ?xs = "chain_elems tbl ! b"
  let ?ys = "take k ?xs @ drop (Suc k) ?xs"
  let ?t = "put_chain tbl b ?ys"
  have ok: "table_ok tbl" using inv by (simp add: table_inv_def)
  have ce: "chain_elems ?t = (chain_elems tbl)[b := ?ys]"
    using ok b by (rule chain_elems_put_chain)
  have 1: "table_ok ?t" using ok b by (rule table_ok_put_chain)
  have "chain_total ?t + length ?xs = chain_total tbl + length ?ys"
    using ok b by (rule chain_total_put_chain)
  moreover have "Suc (length ?ys) = length ?xs" using k by simp
  ultimately have tot: "Suc (chain_total ?t) = chain_total tbl" by simp
  have "size' tbl = of_nat (Suc (chain_total ?t))"
    using inv tot by (simp add: table_inv_def size_inv_def)
  then have 2: "size_inv (?t\<lparr>size' := size' tbl - 1\<rparr>)"
    by (simp add: size_inv_def)
  have 3: "placed ?t"
    unfolding placed_def
  proof (intro allI impI ballI)
    fix c x assume c: "c < length (chain_elems ?t)" and x: "x \<in> set (chain_elems ?t ! c)"
    have "x \<in> set (chain_elems tbl ! c)"
    proof (cases "c = b")
      case True
      then show ?thesis using x b set_remove_subset [of k ?xs] by (auto simp: ce)
    next
      case False
      then show ?thesis using x by (simp add: ce)
    qed
    then show "bucket_index (hash ?t x) (buckets ?t) = int c"
      using inv c by (simp add: table_inv_def placed_def)
  qed
  have 4: "fresh ?t"
    unfolding fresh_def
  proof
    fix ys assume "ys \<in> set (chain_elems ?t)"
    then have "ys = ?ys \<or> ys \<in> set (chain_elems tbl)"
      using set_update_subset_insert [of "chain_elems tbl" b ?ys] by (auto simp: ce)
    then show "chain_fresh (match ?t) ys"
    proof
      assume ys: "ys = ?ys"
      have "?xs \<in> set (chain_elems tbl)" using b by simp
      then have "chain_fresh (match tbl) ?xs" using inv by (simp add: table_inv_def fresh_def)
      then show ?thesis using ys k by (simp add: chain_fresh_remove)
    next
      assume "ys \<in> set (chain_elems tbl)"
      then show ?thesis using inv by (simp add: table_inv_def fresh_def)
    qed
  qed
  show ?thesis using 1 2 3 4 by (simp add: table_inv_def)
qed

subsection \<open>The scan for a bucket that is not empty\<close>

lemma find_nonempty_ok:
  assumes "table_ok tbl" "i \<le> length (table tbl)"
  shows "\<exists>j. find_nonempty tbl i = Inr j \<and> i \<le> j \<and> j \<le> length (table tbl) \<and>
             (\<forall>k. i \<le> k \<and> k < j \<longrightarrow> chain_elems tbl ! k = []) \<and>
             (j < length (table tbl) \<longrightarrow> chain_elems tbl ! j \<noteq> [])"
  using assms(2)
proof (induction "length (table tbl) - i" arbitrary: i)
  case 0
  then have "\<not> i < unat (buckets tbl)" using assms(1) by (simp add: table_ok_def)
  then have "find_nonempty tbl i = Inr i" by (simp add: find_nonempty.simps [of tbl i])
  moreover have "\<not> i < length (table tbl)" using "0.hyps" by simp
  ultimately show ?case using "0.prems" by auto
next
  case (Suc n)
  then have i: "i < length (table tbl)" by simp
  then have iu: "i < unat (buckets tbl)" using assms(1) by (simp add: table_ok_def)
  obtain l where l: "table tbl ! i = Some l" "chain_elems tbl ! i = elems l"
    using slot_Some [OF assms(1) i] by blast
  show ?case
  proof (cases "elems l = []")
    case True
    have "\<exists>j. find_nonempty tbl (Suc i) = Inr j \<and> Suc i \<le> j \<and> j \<le> length (table tbl) \<and>
             (\<forall>k. Suc i \<le> k \<and> k < j \<longrightarrow> chain_elems tbl ! k = []) \<and>
             (j < length (table tbl) \<longrightarrow> chain_elems tbl ! j \<noteq> [])"
      using Suc.hyps(2) i by (intro Suc.hyps(1)) simp_all
    then obtain j where j: "find_nonempty tbl (Suc i) = Inr j" "Suc i \<le> j" "j \<le> length (table tbl)"
      "\<forall>k. Suc i \<le> k \<and> k < j \<longrightarrow> chain_elems tbl ! k = []"
      "j < length (table tbl) \<longrightarrow> chain_elems tbl ! j \<noteq> []" by blast
    have "find_nonempty tbl i = Inr j"
      using iu True j(1) by (simp add: find_nonempty.simps [of tbl i] slot_ok [OF i l(1)] list_size_def)
    moreover have "\<forall>k. i \<le> k \<and> k < j \<longrightarrow> chain_elems tbl ! k = []"
    proof (intro allI impI)
      fix k assume k: "i \<le> k \<and> k < j"
      show "chain_elems tbl ! k = []"
      proof (cases "k = i")
        case True
        then show ?thesis using l(2) \<open>elems l = []\<close> by simp
      next
        case False
        then show ?thesis using k j(4) by simp
      qed
    qed
    ultimately show ?thesis using j(2,3,5) by auto
  next
    case False
    then have "find_nonempty tbl i = Inr i"
      using iu by (simp add: find_nonempty.simps [of tbl i] slot_ok [OF i l(1)] list_size_def)
    then show ?thesis using i l(2) False by auto
  qed
qed

lemma chain_total_zero:
  assumes "\<forall>k < length (table tbl). chain_elems tbl ! k = []"
  shows "chain_total tbl = 0"
proof -
  have "\<forall>xs \<in> set (chain_elems tbl). xs = []"
    using assms by (auto simp: in_set_conv_nth)
  then show ?thesis by (simp add: chain_total_def)
qed

lemma remove_first_nonempty:
  assumes ok: "table_ok tbl" and sz: "size' tbl \<noteq> 0" and tot: "chain_total tbl \<noteq> 0"
  shows "\<exists>i x xs. i < length (table tbl) \<and> find_nonempty tbl 0 = Inr i \<and>
           (\<forall>j < i. chain_elems tbl ! j = []) \<and> chain_elems tbl ! i = x # xs \<and>
           chash_remove tbl None =
             Inr (0, Some x, (put_chain tbl i xs)\<lparr>size' := size' tbl - 1\<rparr>, [])"
proof -
  have "\<exists>j. find_nonempty tbl 0 = Inr j \<and> 0 \<le> j \<and> j \<le> length (table tbl) \<and>
             (\<forall>k. 0 \<le> k \<and> k < j \<longrightarrow> chain_elems tbl ! k = []) \<and>
             (j < length (table tbl) \<longrightarrow> chain_elems tbl ! j \<noteq> [])"
    using ok by (rule find_nonempty_ok) simp
  then obtain i where i: "find_nonempty tbl 0 = Inr i" "i \<le> length (table tbl)"
      "\<forall>k. 0 \<le> k \<and> k < i \<longrightarrow> chain_elems tbl ! k = []"
      "i < length (table tbl) \<longrightarrow> chain_elems tbl ! i \<noteq> []"
    by blast
  have lt: "i < length (table tbl)"
  proof (rule ccontr)
    assume "\<not> i < length (table tbl)"
    then have "\<forall>k < length (table tbl). chain_elems tbl ! k = []" using i(2,3) by simp
    then have "chain_total tbl = 0" by (rule chain_total_zero)
    then show False using tot by simp
  qed
  obtain l where l: "table tbl ! i = Some l" "chain_elems tbl ! i = elems l"
    using slot_Some [OF ok lt] by blast
  obtain x xs where xs: "elems l = x # xs" using i(4) lt l(2) by (cases "elems l") auto
  have rem: "list_remnxt l None = (0, l\<lparr>elems := xs\<rparr>, Some x, [])"
    using xs by (simp add: list_remnxt_def)
  have "chash_remove tbl None =
          Inr (0, Some x, (tbl\<lparr>table := (table tbl)[i := Some (l\<lparr>elems := xs\<rparr>)]\<rparr>)
                            \<lparr>size' := size' tbl - 1\<rparr>, [])"
    using sz by (simp add: chash_remove_def i(1) slot_ok(2) [OF lt l(1)] rem)
  then have r: "chash_remove tbl None =
          Inr (0, Some x, (put_chain tbl i xs)\<lparr>size' := size' tbl - 1\<rparr>, [])"
    by (simp only: put_chain_same [OF lt l(1)])
  have e: "\<forall>j < i. chain_elems tbl ! j = []" using i(3) by simp
  have c: "chain_elems tbl ! i = x # xs" using l(2) xs by simp
  show ?thesis using lt i(1) e c r by blast
qed

subsection \<open>Construction\<close>

lemma init_loop_result:
  assumes "length slots = n" "i \<le> n" "init_loop c d n i (Some slots) = Inr arr"
  shows "arr = Some (take i slots @ replicate (n - i) (Some \<lparr>elems = [], list_destroy_fn = d\<rparr>))"
  using assms
proof (induction "n - i" arbitrary: i slots)
  case 0
  then have "\<not> i < n" by simp
  then have "init_loop c d n i (Some slots) = Inr (Some slots)"
    by (simp add: init_loop.simps [of c d n i])
  then have "arr = Some slots" using "0.prems"(3) by simp
  moreover have "take i slots = slots" using 0 by simp
  ultimately show ?case using 0 by simp
next
  case (Suc k)
  let ?e = "\<lparr>elems = [], list_destroy_fn = d\<rparr> :: ('a, 'b) linked_list"
  have i: "i < n" using Suc.hyps(2) by simp
  have c: "c i"
    using Suc.prems(1,3) i by (simp add: init_loop.simps [of c d n i] list_create_def split: if_splits)
  then have rec: "init_loop c d n (Suc i) (Some (slots[i := Some ?e])) = Inr arr"
    using Suc.prems(1,3) i by (simp add: init_loop.simps [of c d n i] list_create_def)
  have "arr = Some (take (Suc i) (slots[i := Some ?e]) @ replicate (n - Suc i) (Some ?e))"
    using Suc.hyps(2) Suc.prems(1) i rec by (intro Suc.hyps(1)) simp_all
  moreover have "take (Suc i) (slots[i := Some ?e]) = take i slots @ [Some ?e]"
    using Suc.prems(1) i by (simp add: take_Suc_conv_app_nth)
  moreover have "replicate (n - i) (Some ?e) = Some ?e # replicate (n - Suc i) (Some ?e)"
    using i by (metis Suc_diff_Suc replicate_Suc)
  ultimately show ?case by simp
qed

lemma sint_pos_uint:
  fixes w :: "32 word"
  assumes "0 < sint w"
  shows "uint w = sint w" and "uint w \<le> INT_MAX" and "0 < w"
proof -
  have lt: "sint w < 2 ^ 31" using sint_lt [of w] by simp
  have "uint w = take_bit 32 (sint w)" using uint_sint [of w] by simp
  also have "\<dots> = sint w"
    using assms lt by (simp add: take_bit_int_eq_self)
  finally show u: "uint w = sint w" .
  then show "uint w \<le> INT_MAX" using lt by (simp add: INT_MAX_def)
  have "w \<noteq> 0" using assms by auto
  then show "0 < w" by (simp add: word_gt_0)
qed

lemma chash_init_on_result:
  assumes "0 < sint sz"
    and "chash_init_on (calloc_slots True (sint sz)) c sz h m d = Inr tbl"
  shows "tbl = \<lparr>size' = 0, buckets = sz, hash = h, match = m, destroy = d,
               table = replicate (nat (sint sz)) (Some \<lparr>elems = [], list_destroy_fn = d\<rparr>)\<rparr>"
proof -
  let ?n = "nat (sint sz)"
  let ?arr = "Some (replicate ?n None) :: ('a, 'b) linked_list option list option"
  have cs: "calloc_slots True (sint sz) = ?arr"
    using assms(1) by (simp add: calloc_slots_def)
  show ?thesis
  proof (cases "init_loop c d ?n 0 ?arr")
    case (Inl e)
    then show ?thesis using assms(2) by (simp add: chash_init_on_def cs)
  next
    case (Inr arr)
    have "arr = Some (take 0 (replicate ?n None) @
                  replicate (?n - 0) (Some \<lparr>elems = [], list_destroy_fn = d\<rparr>))"
      using Inr by (intro init_loop_result) simp_all
    then show ?thesis using assms(2) Inr by (simp add: chash_init_on_def cs)
  qed
qed

lemma table_inv_init:
  assumes "0 < sint sz"
    and "chash_init_on (calloc_slots True (sint sz)) c sz h m d = Inr tbl"
  shows "table_inv tbl"
proof -
  let ?n = "nat (sint sz)"
  have tbl: "tbl = \<lparr>size' = 0, buckets = sz, hash = h, match = m, destroy = d,
               table = replicate ?n (Some \<lparr>elems = [], list_destroy_fn = d\<rparr>)\<rparr>"
    using assms by (rule chash_init_on_result)
  have ce: "chain_elems tbl = replicate ?n []" by (simp add: tbl chain_elems_def)
  have "nat (uint sz) = unat sz" by simp
  then have "?n = unat sz" using sint_pos_uint(1) [OF assms(1)] by simp
  then have "table_ok tbl"
    using sint_pos_uint(2,3) [OF assms(1)] by (simp add: table_ok_def tbl)
  moreover have "size_inv tbl" by (simp add: size_inv_def chain_total_def ce sum_list_replicate) (simp add: tbl)
  moreover have "placed tbl" by (simp add: placed_def ce)
  moreover have "fresh tbl" by (simp add: fresh_def ce chain_fresh_def)
  ultimately show ?thesis by (simp add: table_inv_def)
qed

subsection \<open>Reachable tables\<close>

lemma table_inv_chash_insert:
  assumes "table_inv tbl" "chash_insert alloc_ok tbl data = Inr (r, tbl')"
  shows "table_inv tbl'"
proof (cases data)
  case None
  then show ?thesis using assms by (simp add: chash_insert_def)
next
  case (Some v)
  have ok: "table_ok tbl" using assms(1) by (simp add: table_inv_def)
  show ?thesis
  proof (cases "find (match tbl v) (chain_elems tbl ! bucket_nat tbl v)")
    case None
    then show ?thesis
      using assms Some table_inv_insert [OF assms(1) None]
      by (simp add: chash_insert_ok [OF ok] split: if_splits)
  next
    case (Some x)
    then show ?thesis using assms \<open>data = Some v\<close> by (simp add: chash_insert_ok [OF ok])
  qed
qed

lemma table_inv_chash_remove:
  assumes "table_inv tbl" "chash_remove tbl data = Inr (r, out, tbl', ds)"
  shows "table_inv tbl'"
proof (cases "size' tbl = 0")
  case True
  then show ?thesis using assms by (simp add: chash_remove_def)
next
  case False
  have ok: "table_ok tbl" using assms(1) by (simp add: table_inv_def)
  show ?thesis
  proof (cases data)
    case None
    have "chain_total tbl \<noteq> 0"
    proof
      assume "chain_total tbl = 0"
      then show False using False assms(1) by (simp add: table_inv_def size_inv_def)
    qed
    then obtain i x xs where i: "i < length (table tbl)" "chain_elems tbl ! i = x # xs"
        "chash_remove tbl None = Inr (0, Some x, (put_chain tbl i xs)\<lparr>size' := size' tbl - 1\<rparr>, [])"
      using remove_first_nonempty [OF ok False] by blast
    have "table_inv ((put_chain tbl i (take 0 (chain_elems tbl ! i) @ drop (Suc 0) (chain_elems tbl ! i)))
                     \<lparr>size' := size' tbl - 1\<rparr>)"
      using assms(1) i(1) by (rule table_inv_remove) (simp add: i(2))
    then show ?thesis using assms(2) None i by simp
  next
    case (Some v)
    let ?b = "bucket_nat tbl v"
    let ?xs = "chain_elems tbl ! ?b"
    let ?k = "first_match (match tbl) v ?xs"
    show ?thesis
    proof (cases "?k < length ?xs")
      case True
      have "table_inv ((put_chain tbl ?b (take ?k ?xs @ drop (Suc ?k) ?xs))\<lparr>size' := size' tbl - 1\<rparr>)"
        using assms(1) bucket_nat_less [OF ok] True by (rule table_inv_remove)
      then show ?thesis
        using assms(2) Some True by (simp add: chash_remove_ok [OF ok False] Let_def)
    next
      case False2: False
      then show ?thesis
        using assms Some by (simp add: chash_remove_ok [OF ok False] Let_def)
    qed
  qed
qed

lemma reachable_inv: "reachable tbl \<Longrightarrow> table_inv tbl"
proof (induction rule: reachable.induct)
  case (reach_init sz create_ok h m d tbl)
  then show ?case by (rule table_inv_init)
next
  case (reach_insert tbl alloc_ok data r tbl')
  then show ?case using table_inv_chash_insert by blast
next
  case (reach_remove tbl data r out tbl' ds)
  then show ?case using table_inv_chash_remove by blast
qed

subsection \<open>Traversal\<close>

lemma traverse_loop_ok:
  assumes "table_ok tbl" "i \<le> length (table tbl)"
  shows "traverse_loop tbl i = Inr (concat (drop i (chain_elems tbl)))"
  using assms(2)
proof (induction "length (table tbl) - i" arbitrary: i)
  case 0
  then have "\<not> i < unat (buckets tbl)" "length (table tbl) \<le> i"
    using assms(1) by (simp_all add: table_ok_def)
  then show ?case by (simp add: traverse_loop.simps [of tbl i])
next
  case (Suc n)
  then have i: "i < length (table tbl)" by simp
  then have iu: "i < unat (buckets tbl)" using assms(1) by (simp add: table_ok_def)
  obtain l where l: "table tbl ! i = Some l" "chain_elems tbl ! i = elems l"
    using slot_Some [OF assms(1) i] by blast
  have "traverse_loop tbl (Suc i) = Inr (concat (drop (Suc i) (chain_elems tbl)))"
    using Suc.hyps(2) i by (intro Suc.hyps(1)) simp_all
  moreover have "drop i (chain_elems tbl) = elems l # drop (Suc i) (chain_elems tbl)"
    using i l(2) Cons_nth_drop_Suc [of i "chain_elems tbl"] by simp
  ultimately show ?case
    using iu by (simp add: traverse_loop.simps [of tbl i] slot_ok [OF i l(1)] list_traverse_def)
qed

lemma chash_traverse_ok:
  assumes "table_ok tbl"
  shows "chash_traverse tbl = Inr (concat (chain_elems tbl))"
proof -
  have "traverse_loop tbl 0 = Inr (concat (drop 0 (chain_elems tbl)))"
    using assms by (rule traverse_loop_ok) simp
  then show ?thesis by (simp add: chash_traverse_def)
qed

lemma length_concat_total: "length (concat (chain_elems tbl)) = chain_total tbl"
  by (simp only: chain_total_def length_concat)

subsection \<open>Facts about the example tables\<close>

lemma example_159_elems: "chain_elems example_159 = [[], [1, 5, 9], [], []]"
  by (simp add: chain_elems_def example_159_def empty_chain_def)

lemma example_empty_elems: "chain_elems example_empty = [[], [], [], []]"
  by (simp add: chain_elems_def example_empty_def empty_chain_def)

lemma example_empty_init:
  "chash_init_on (calloc_slots True (sint (4 :: 32 word))) (\<lambda>i. True) 4 of_nat (=) () =
     Inr example_empty"
  by (simp add: chash_init_on_def calloc_slots_def init_loop.simps list_create_def
      numeral_eq_Suc example_empty_def empty_chain_def)

lemma example_empty_reachable: "reachable example_empty"
  by (rule reach_init [OF _ example_empty_init]) simp

lemma example_fields:
  "size' example_empty = 0" "buckets example_empty = 4" "hash example_empty = of_nat"
  "match example_empty = (=)"
  "size' example_159 = 3" "buckets example_159 = 4" "hash example_159 = of_nat"
  "match example_159 = (=)"
  by (simp_all add: example_empty_def example_159_def)

lemma example_bucket_nat:
  "bucket_nat example_empty (Suc 0) = Suc 0" "bucket_nat example_empty 5 = Suc 0"
  "bucket_nat example_empty 9 = Suc 0"
  "bucket_nat example_159 (Suc 0) = Suc 0" "bucket_nat example_159 5 = Suc 0"
  "bucket_nat example_159 9 = Suc 0" "bucket_nat example_159 13 = Suc 0"
  by (simp_all add: bucket_nat_def bucket_index_def example_fields)

lemma bucket_nat_fields:
  "hash tbl' = hash tbl \<Longrightarrow> buckets tbl' = buckets tbl \<Longrightarrow> bucket_nat tbl' v = bucket_nat tbl v"
  by (simp add: bucket_nat_def)

lemma example_159_reachable: "reachable example_159"
proof -
  define t1 where "t1 = (put_chain example_empty 1 [1])\<lparr>size' := 1\<rparr>"
  define t2 where "t2 = (put_chain example_empty 1 [1, 5])\<lparr>size' := 2\<rparr>"
  have ok1: "table_ok t1" and ok2: "table_ok t2"
    using table_ok_put_chain [OF example_empty_ok, of 1]
    by (simp_all add: t1_def t2_def example_empty_def)
  have b1: "bucket_nat t1 5 = Suc 0" and b2: "bucket_nat t2 9 = Suc 0"
    by (simp_all add: t1_def t2_def bucket_nat_fields [of _ example_empty] example_bucket_nat)
  have e1: "chain_elems t1 = [[], [1], [], []]" and e2: "chain_elems t2 = [[], [1, 5], [], []]"
    by (simp_all add: t1_def t2_def chain_elems_def put_chain_def example_empty_def
        empty_chain_def)
  have "chash_insert True example_empty (Some 1) = Inr (0, t1)"
    by (simp add: chash_insert_ok [OF example_empty_ok] example_bucket_nat example_empty_elems)
       (simp add: t1_def example_empty_def)
  then have r1: "reachable t1" using example_empty_reachable reach_insert by blast
  have "chash_insert True t1 (Some 5) = Inr (0, t2)"
    by (simp add: chash_insert_ok [OF ok1] b1 e1)
       (simp add: t1_def t2_def put_chain_def example_empty_def)
  then have r2: "reachable t2" using r1 reach_insert by blast
  have "chash_insert True t2 (Some 9) = Inr (0, example_159)"
    by (simp add: chash_insert_ok [OF ok2] b2 e2)
       (simp add: t2_def put_chain_def example_empty_def example_159_def)
  then show ?thesis using r2 reach_insert by blast
qed

lemma unat_size_total:
  fixes n :: nat
  assumes "n < 2 ^ 32"
  shows "unat (of_nat n :: 32 word) = n"
  using assms by (simp add: unat_of_nat)

subsection \<open>Uniqueness\<close>

lemma stored_in_bucket:
  assumes "x \<in> set (concat (chain_elems tbl))"
  shows "\<exists>b < length (table tbl). x \<in> set (chain_elems tbl ! b)"
proof -
  obtain xs where "xs \<in> set (chain_elems tbl)" "x \<in> set xs" using assms by auto
  then show ?thesis by (metis in_set_conv_nth length_chain_elems)
qed

lemma matching_bucket:
  assumes ok: "table_ok tbl" and pl: "placed tbl" and co: "consistent tbl"
    and b: "b < length (table tbl)" and x: "x \<in> set (chain_elems tbl ! b)"
    and m: "match tbl v x"
  shows "bucket_nat tbl v = b"
proof -
  have "hash tbl v = hash tbl x" using co m by (simp add: consistent_def)
  moreover have "bucket_index (hash tbl x) (buckets tbl) = int b"
    using pl b x by (simp add: placed_def)
  ultimately show ?thesis by (simp add: bucket_nat_def)
qed

lemma chash_insert_stored:
  assumes ok: "table_ok tbl" and pl: "placed tbl" and co: "consistent tbl"
    and x: "x \<in> set (concat (chain_elems tbl))" and m: "match tbl v x"
  shows "chash_insert alloc_ok tbl (Some v) = Inr (1, tbl)"
proof -
  obtain b where b: "b < length (table tbl)" "x \<in> set (chain_elems tbl ! b)"
    using stored_in_bucket [OF x] by blast
  have "bucket_nat tbl v = b" using ok pl co b m by (rule matching_bucket)
  then have "find (match tbl v) (chain_elems tbl ! bucket_nat tbl v) \<noteq> None"
    using b(2) m by (auto simp: find_None_iff)
  then show ?thesis by (auto simp: chash_insert_ok [OF ok])
qed

lemma unique_of_inv:
  assumes ok: "table_ok tbl" and pl: "placed tbl" and fr: "fresh tbl" and co: "consistent tbl"
  shows "unique tbl"
  unfolding unique_def
proof (intro allI impI notI)
  fix b i b' i'
  assume b: "b < length (chain_elems tbl)" and i: "i < length (chain_elems tbl ! b)"
    and b': "b' < length (chain_elems tbl)" and i': "i' < length (chain_elems tbl ! b')"
    and ne: "(b, i) \<noteq> (b', i')"
    and mm: "match tbl (chain_elems tbl ! b ! i) (chain_elems tbl ! b' ! i') \<and>
             match tbl (chain_elems tbl ! b' ! i') (chain_elems tbl ! b ! i)"
  let ?x = "chain_elems tbl ! b ! i" and ?y = "chain_elems tbl ! b' ! i'"
  have "bucket_nat tbl ?x = b'"
    using ok pl co _ _ conjunct1 [OF mm] by (rule matching_bucket) (use b' i' in simp_all)
  moreover have "bucket_nat tbl ?y = b'"
    using pl b' i' by (simp add: placed_def bucket_nat_def)
  moreover have "bucket_nat tbl ?x = b"
    using pl b i by (simp add: placed_def bucket_nat_def)
  ultimately have bb: "b' = b" by simp
  then have ii: "i \<noteq> i'" using ne by simp
  have "chain_elems tbl ! b \<in> set (chain_elems tbl)" using b by simp
  then have "sorted_wrt (\<lambda>x y. \<not> match tbl y x) (chain_elems tbl ! b)"
    using fr by (simp add: fresh_def chain_fresh_def)
  then have s: "\<And>p q. p < q \<Longrightarrow> q < length (chain_elems tbl ! b) \<Longrightarrow>
      \<not> match tbl (chain_elems tbl ! b ! q) (chain_elems tbl ! b ! p)"
    by (simp add: sorted_wrt_iff_nth_less)
  show False
  proof (cases "i < i'")
    case True
    then show ?thesis using s [of i i'] i' mm bb by simp
  next
    case False
    then have "i' < i" using ii by simp
    then show ?thesis using s [of i' i] i mm bb by simp
  qed
qed

subsection \<open>Insertion, removal and lookup in sequence\<close>

lemma chash_insert_fields:
  assumes "table_ok tbl" "chash_insert alloc_ok tbl data = Inr (r, tbl')"
  shows "match tbl' = match tbl" "hash tbl' = hash tbl" "buckets tbl' = buckets tbl"
proof -
  have "match tbl' = match tbl \<and> hash tbl' = hash tbl \<and> buckets tbl' = buckets tbl"
  proof (cases data)
    case None
    then show ?thesis using assms(2) by (simp add: chash_insert_def)
  next
    case (Some v)
    then show ?thesis
      using assms(2)
      by (cases "find (match tbl v) (chain_elems tbl ! bucket_nat tbl v)")
         (auto simp: chash_insert_ok [OF assms(1)] split: if_splits)
  qed
  then show "match tbl' = match tbl" "hash tbl' = hash tbl" "buckets tbl' = buckets tbl"
    by simp_all
qed

lemma no_match_after_removal:
  assumes fr: "chain_fresh m xs" and k: "first_match m v xs < length xs"
    and sy: "symp m" and tr: "transp m"
  shows "\<forall>y \<in> set (take (first_match m v xs) xs @ drop (Suc (first_match m v xs)) xs). \<not> m v y"
proof
  let ?k = "first_match m v xs"
  fix y assume "y \<in> set (take ?k xs @ drop (Suc ?k) xs)"
  then consider "y \<in> set (take ?k xs)" | "y \<in> set (drop (Suc ?k) xs)" by auto
  then show "\<not> m v y"
  proof cases
    case 1
    then obtain j where "j < ?k" "y = xs ! j"
      by (auto simp: in_set_conv_nth)
    then show ?thesis using first_match_before [of j m v xs] by simp
  next
    case 2
    then obtain j where "j < length (drop (Suc ?k) xs)" "y = drop (Suc ?k) xs ! j"
      by (metis in_set_conv_nth)
    then have j: "Suc ?k + j < length xs" "y = xs ! (Suc ?k + j)"
      by simp_all
    have "sorted_wrt (\<lambda>x y. \<not> m y x) xs" using fr by (simp add: chain_fresh_def)
    then have n: "\<not> m y (xs ! ?k)"
      using j by (simp add: sorted_wrt_iff_nth_less)
    show ?thesis
    proof
      assume "m v y"
      then have "m y v" using sy by (simp add: sympD)
      moreover have "m v (xs ! ?k)" using k by (rule first_match_hit)
      ultimately have "m y (xs ! ?k)" using tr by (blast dest: transpD)
      then show False using n by simp
    qed
  qed
qed

lemma find_snoc_miss:
  "find P xs = None \<Longrightarrow> P v \<Longrightarrow> find P (xs @ [v]) = Some v"
  by (induction xs) (simp_all split: if_splits)

lemma lookup_after_insert:
  assumes ok: "table_ok tbl" and re: "match tbl v v"
    and ins: "chash_insert True tbl (Some v) = Inr (0, tbl1)"
  shows "chash_lookup tbl1 (Some v) = Inr (1, Some v) \<and> v \<in> set (concat (chain_elems tbl1))"
proof -
  let ?b = "bucket_nat tbl v"
  let ?xs = "chain_elems tbl ! ?b"
  have b: "?b < length (table tbl)" using ok by (rule bucket_nat_less)
  have miss: "find (match tbl v) ?xs = None"
    using ins by (cases "find (match tbl v) ?xs") (simp_all add: chash_insert_ok [OF ok])
  then have t1: "tbl1 = (put_chain tbl ?b (?xs @ [v]))\<lparr>size' := size' tbl + 1\<rparr>"
    using ins by (simp add: chash_insert_ok [OF ok])
  have ok1: "table_ok tbl1" using table_ok_put_chain [OF ok b] by (simp add: t1)
  have b1: "bucket_nat tbl1 v = ?b" by (simp add: t1 bucket_nat_def)
  have ce: "chain_elems tbl1 = (chain_elems tbl)[?b := ?xs @ [v]]"
    using chain_elems_put_chain [OF ok b] by (simp add: t1)
  then have c1: "chain_elems tbl1 ! ?b = ?xs @ [v]" using b by simp
  have "match tbl1 = match tbl" by (simp add: t1)
  then have "find (match tbl1 v) (?xs @ [v]) = Some v"
    using miss re by (simp add: find_snoc_miss)
  then have "chash_lookup tbl1 (Some v) = Inr (1, Some v)"
    by (simp add: chash_lookup_ok [OF ok1] b1 c1)
  moreover have "?xs @ [v] \<in> set (chain_elems tbl1)"
    using c1 b nth_mem [of ?b "chain_elems tbl1"] by (simp add: ce)
  then have "v \<in> set (concat (chain_elems tbl1))"
    by (simp only: set_concat) (rule UN_I [of "?xs @ [v]"], simp_all)
  ultimately show ?thesis by simp
qed

lemma lookup_after_remove:
  assumes inv: "table_inv tbl" and sy: "symp (match tbl)" and tr: "transp (match tbl)"
    and rem: "chash_remove tbl (Some v) = Inr (0, out, tbl2, ds)"
  shows "chash_lookup tbl2 (Some v) = Inr (0, Some v)"
proof -
  let ?b = "bucket_nat tbl v"
  let ?xs = "chain_elems tbl ! ?b"
  let ?k = "first_match (match tbl) v ?xs"
  let ?ys = "take ?k ?xs @ drop (Suc ?k) ?xs"
  have ok: "table_ok tbl" using inv by (simp add: table_inv_def)
  have b: "?b < length (table tbl)" using ok by (rule bucket_nat_less)
  have sz: "size' tbl \<noteq> 0"
  proof
    assume "size' tbl = 0"
    then show False using rem by (simp add: chash_remove_def)
  qed
  have k: "?k < length ?xs"
  proof (rule ccontr)
    assume "\<not> ?k < length ?xs"
    then show False using rem by (simp add: chash_remove_ok [OF ok sz] Let_def)
  qed
  then have t2: "tbl2 = (put_chain tbl ?b ?ys)\<lparr>size' := size' tbl - 1\<rparr>"
    using rem by (simp add: chash_remove_ok [OF ok sz] Let_def)
  have ok2: "table_ok tbl2" using table_ok_put_chain [OF ok b] by (simp add: t2)
  have b2: "bucket_nat tbl2 v = ?b" by (simp add: t2 bucket_nat_def)
  have "chain_elems tbl2 = (chain_elems tbl)[?b := ?ys]"
    using chain_elems_put_chain [OF ok b] by (simp add: t2)
  then have c2: "chain_elems tbl2 ! ?b = ?ys" using b by simp
  have "?xs \<in> set (chain_elems tbl)" using b by simp
  then have "chain_fresh (match tbl) ?xs" using inv by (simp add: table_inv_def fresh_def)
  then have "\<forall>y \<in> set ?ys. \<not> match tbl v y"
    using k sy tr by (rule no_match_after_removal)
  moreover have "match tbl2 = match tbl" by (simp add: t2)
  ultimately have "find (match tbl2 v) ?ys = None" by (auto simp: find_None_iff)
  then show ?thesis by (simp add: chash_lookup_ok [OF ok2] b2 c2)
qed

lemma example_159_consistent: "consistent example_159"
  by (simp add: consistent_def example_fields)

subsection \<open>Lookup with no value\<close>

lemma chash_lookup_arbitrary_result:
  assumes "chash_lookup tbl None = Inr (r, d)"
  shows "r = 1"
proof (cases "chain_at tbl 0")
  case (Inl e)
  then show ?thesis using assms by (simp add: chash_lookup_def)
next
  case (Inr l)
  then show ?thesis
    using assms by (cases "list_head l") (simp_all add: chash_lookup_def)
qed

lemma chash_lookup_arbitrary_head:
  assumes "table_ok tbl" "chain_elems tbl ! 0 = x # xs"
  shows "chash_lookup tbl None = Inr (1, Some x)"
proof -
  have b: "0 < length (table tbl)"
    using assms(1) by (simp add: table_ok_def unat_gt_0 word_gt_0)
  then obtain l where l: "table tbl ! 0 = Some l" "chain_elems tbl ! 0 = elems l"
    using slot_Some [OF assms(1)] by blast
  have "chain_at tbl 0 = Inr l" using slot_ok(2) [OF b l(1)] by simp
  then show ?thesis
    using assms(2) l(2) by (simp add: chash_lookup_def list_head_def list_data_def)
qed

subsection \<open>Insertion when the append fails\<close>

lemma chash_insert_append_failure:
  assumes "table_ok tbl" "find (match tbl v) (chain_elems tbl ! bucket_nat tbl v) = None"
  shows "chash_insert False tbl (Some v) = Inr (0, tbl)"
  using assms(2) by (simp add: chash_insert_ok [OF assms(1)])

subsection \<open>Construction with the array as allocated\<close>

lemma init_loop_overrun:
  assumes "i \<le> length slots" "length slots < n"
  shows "init_loop (\<lambda>i. True) d n i (Some slots) = Inl OutOfBounds"
  using assms
proof (induction "length slots - i" arbitrary: i slots)
  case 0
  then have "i < n" "\<not> i < length slots" by simp_all
  then show ?case by (simp add: init_loop.simps [of _ d n i])
next
  case (Suc k)
  let ?e = "\<lparr>elems = [], list_destroy_fn = d\<rparr> :: ('a, 'b) linked_list"
  have i: "i < length slots" "i < n" using Suc.hyps(2) Suc.prems by simp_all
  have "init_loop (\<lambda>i. True) d n (Suc i) (Some (slots[i := Some ?e])) = Inl OutOfBounds"
    using Suc.hyps(2) Suc.prems i by (intro Suc.hyps(1)) simp_all
  then show ?case using i by (simp add: init_loop.simps [of _ d n i] list_create_def)
qed

lemma chash_init_overrun:
  assumes "0 < sint sz"
  shows "chash_init True True (\<lambda>i. True) sz h m d = Inl OutOfBounds"
proof -
  let ?slots = "replicate (nat (sint sz - 1)) None :: ('a, 'b) linked_list option list"
  have "init_loop (\<lambda>i. True) d (nat (sint sz)) 0 (Some ?slots) = Inl OutOfBounds"
    using assms by (intro init_loop_overrun) simp_all
  then show ?thesis using assms by (simp add: chash_init_def chash_init_on_def calloc_slots_def)
qed

subsection \<open>A table of one bucket holding the first n naturals\<close>

lemma full_table_ok: "table_ok (full_table n)"
  by (simp add: table_ok_def full_table_def INT_MAX_def)

lemma full_table_elems: "chain_elems (full_table n) = [[0..<n]]"
  by (simp add: chain_elems_def full_table_def empty_chain_def)

lemma full_table_total: "chain_total (full_table n) = n"
  by (simp add: chain_total_def full_table_elems)

lemma full_table_size: "size' (full_table n) = of_nat n"
  by (simp add: full_table_def)

lemma full_table_bucket: "bucket_nat (full_table n) v = 0"
  by (simp add: bucket_nat_def bucket_index_def full_table_def)

lemma full_table_init:
  "chash_init_on (calloc_slots True (sint (1 :: 32 word))) (\<lambda>i. True) 1 (\<lambda>x. 0) (=) () =
     Inr (full_table 0)"
  by (simp add: chash_init_on_def calloc_slots_def init_loop.simps list_create_def
      full_table_def empty_chain_def)

lemma full_table_insert:
  "chash_insert True (full_table n) (Some n) = Inr (0, full_table (Suc n))"
proof -
  have "find ((=) n) [0..<n] = None" by (simp add: find_None_iff)
  moreover have "match (full_table n) = (=)" by (simp add: full_table_def)
  moreover have "(put_chain (full_table n) 0 ([0..<n] @ [n]))\<lparr>size' := size' (full_table n) + 1\<rparr> =
                 full_table (Suc n)"
    by (simp add: put_chain_def full_table_def)
  ultimately show ?thesis
    by (simp add: chash_insert_ok [OF full_table_ok] full_table_bucket full_table_elems)
qed

lemma full_table_reachable: "reachable (full_table n)"
proof (induction n)
  case 0
  show ?case by (rule reach_init [OF _ full_table_init]) simp
next
  case (Suc n)
  then show ?case using full_table_insert [of n] by (rule reach_insert)
qed

lemma word32_wraps: "(of_nat (2 ^ 32) :: 32 word) = 0"
  by simp

subsection \<open>The round trip when the append succeeds\<close>

text \<open>
  Let the table be one that construction, insertion and removal lead to, and let
  \<^verbatim>\<open>match\<close> be symmetric and transitive and hold of \<open>v\<close> with itself. After an
  insertion of \<open>v\<close> that appended it (the allocation succeeds and 0 is returned), a
  lookup of \<open>v\<close> returns 1 and the value \<open>v\<close>. After any insertion of \<open>v\<close> followed by
  a removal of \<open>v\<close> that returns 0, a lookup of \<open>v\<close> returns 0 and leaves the queried
  reference as it is.
\<close>
lemma roundtrip_when_appended:
  assumes "reachable tbl" and "match tbl v v" and "symp (match tbl)" and "transp (match tbl)"
  shows "(chash_insert True tbl (Some v) = Inr (0, tbl1) \<longrightarrow>
            chash_lookup tbl1 (Some v) = Inr (1, Some v) \<and>
            v \<in> set (concat (chain_elems tbl1)) \<and> match tbl1 v v) \<and>
         (chash_insert alloc_ok tbl (Some v) = Inr (r, tbl1') \<and>
          chash_remove tbl1' (Some v) = Inr (0, out, tbl2, ds) \<longrightarrow>
            chash_lookup tbl2 (Some v) = Inr (0, Some v))"
proof (intro conjI impI)
  have inv: "table_inv tbl" using assms(1) by (rule reachable_inv)
  then have ok: "table_ok tbl" by (simp add: table_inv_def)
  {
    assume ins: "chash_insert True tbl (Some v) = Inr (0, tbl1)"
    then show "chash_lookup tbl1 (Some v) = Inr (1, Some v)"
      and "v \<in> set (concat (chain_elems tbl1))"
      using lookup_after_insert [OF ok assms(2)] by simp_all
    show "match tbl1 v v" using chash_insert_fields(1) [OF ok ins] assms(2) by simp
  }
  {
    assume "chash_insert alloc_ok tbl (Some v) = Inr (r, tbl1') \<and>
            chash_remove tbl1' (Some v) = Inr (0, out, tbl2, ds)"
    then have ins: "chash_insert alloc_ok tbl (Some v) = Inr (r, tbl1')"
      and rem: "chash_remove tbl1' (Some v) = Inr (0, out, tbl2, ds)" by simp_all
    have inv1: "table_inv tbl1'" using inv ins by (rule table_inv_chash_insert)
    have m: "match tbl1' = match tbl" using ok ins by (rule chash_insert_fields)
    show "chash_lookup tbl2 (Some v) = Inr (0, Some v)"
      using inv1 _ _ rem by (rule lookup_after_remove) (simp_all add: m assms)
  }
qed

lemma roundtrip_when_appended_example:
  "reachable example_159 \<and> match example_159 13 13 \<and>
   symp (match example_159) \<and> transp (match example_159) \<and>
   chash_insert True example_159 (Some 13) =
     Inr (0, (put_chain example_159 1 [1, 5, 9, 13])\<lparr>size' := 4\<rparr>) \<and>
   chash_lookup ((put_chain example_159 1 [1, 5, 9, 13])\<lparr>size' := 4\<rparr>) (Some 13) =
     Inr (1, Some 13) \<and>
   chash_remove ((put_chain example_159 1 [1, 5, 9, 13])\<lparr>size' := 4\<rparr>) (Some 13) =
     Inr (0, Some 13, example_159, []) \<and>
   chash_lookup example_159 (Some 13) = Inr (0, Some 13)"
proof -
  define t1 where "t1 = (put_chain example_159 1 [1, 5, 9, 13])\<lparr>size' := 4\<rparr>"
  have h: "match example_159 13 13" "symp (match example_159)" "transp (match example_159)"
    by (simp_all add: example_fields sympI transpI)
  have ins: "chash_insert True example_159 (Some 13) = Inr (0, t1)"
    by (simp add: chash_insert_ok [OF example_159_ok] example_bucket_nat example_159_elems
        example_fields t1_def)
  have ok1: "table_ok t1"
    using table_ok_put_chain [OF example_159_ok, of 1] by (simp add: t1_def example_159_def)
  have s1: "size' t1 \<noteq> 0" by (simp add: t1_def)
  have b1: "bucket_nat t1 13 = Suc 0"
    by (simp add: t1_def bucket_nat_fields [of _ example_159] example_bucket_nat)
  have e1: "chain_elems t1 = [[], [1, 5, 9, 13], [], []]"
    by (simp add: t1_def chain_elems_def put_chain_def example_159_def empty_chain_def)
  have f: "first_match (=) 13 [Suc 0, 5, 9, 13 :: nat] = 3"
    by (simp add: first_match_def)
  have m1: "match t1 = (=)" by (simp add: t1_def example_fields)
  have rem: "chash_remove t1 (Some 13) = Inr (0, Some 13, example_159, [])"
    by (simp add: chash_remove_ok [OF ok1 s1] b1 e1 Let_def m1 f)
       (simp add: t1_def put_chain_def example_159_def)
  show ?thesis
    using roundtrip_when_appended [OF example_159_reachable h, of t1 True 0 t1 "Some 13"
        example_159 "[]"] ins rem example_159_reachable h
    by (simp add: t1_def)
qed

section \<open>The statements of the specification\<close>

text \<open>
  C1. \<^verbatim>\<open>chash_init(4, ...)\<close> with every allocation succeeding: \<^verbatim>\<open>calloc(size - 1, ...)\<close>
  gives an array of three slots, not four, and the loop that stores one chain per
  bucket writes its fourth chain outside the array.
\<close>
theorem chash_init_array_one_short:
  "calloc_slots True (sint (4 :: 32 word) - 1) =
     Some [None, None, None :: (nat, unit) linked_list option] \<and>
   chash_init True True (\<lambda>i. True) 4 (of_nat :: nat \<Rightarrow> 32 word) (=) () = Inl OutOfBounds"
  by (simp add: chash_init_def chash_init_on_def calloc_slots_def init_loop.simps
      list_create_def numeral_eq_Suc)

text \<open>
  C2. Inserting 5 into the empty example table while the allocation of the chain's node
  fails: \<^verbatim>\<open>chash_insert\<close> returns 0, the code of a successful insertion, not -1; the
  table, its size included, is as before.
\<close>
theorem chash_insert_append_failure_returns_0:
  "chash_insert False example_empty (Some 5) = Inr (0, example_empty)"
  by (simp add: chash_insert_ok [OF example_empty_ok] example_bucket_5)
     (simp add: example_empty_def chain_elems_def empty_chain_def)

text \<open>
  C3. Looking up no specific value in the empty example table: bucket 0 is empty, its
  head is \<^verbatim>\<open>NULL\<close>, and \<^verbatim>\<open>chash_lookup\<close> reads the data of that node; it does not return
  0.
\<close>
theorem chash_lookup_arbitrary_empty_bucket:
  "chash_lookup example_empty None = Inl NullDeref"
  by (simp add: chash_lookup_def chain_at_def slot_def list_head_def example_empty_def
      empty_chain_def)

text \<open>
  C7. On a table whose size is 0, \<^verbatim>\<open>chash_remove\<close> returns -1 whatever the argument,
  leaves \<^verbatim>\<open>*data\<close> and the table as they are, and reads no bucket: this holds of every
  table, also of one whose array has no slot at all.
\<close>
theorem chash_remove_empty:
  "size' tbl = 0 \<Longrightarrow> chash_remove tbl data = Inr (- 1, data, tbl, [])"
  by (simp add: chash_remove_def)

theorem chash_remove_empty_witness:
  "size' example_empty = 0 \<and>
   chash_remove example_empty (Some 5) = Inr (- 1, Some 5, example_empty, []) \<and>
   chash_remove example_empty None = Inr (- 1, None, example_empty, []) \<and>
   chash_remove (example_empty\<lparr>table := []\<rparr>) (Some 5) =
     Inr (- 1, Some 5, example_empty\<lparr>table := []\<rparr>, [])"
  using chash_remove_empty [of example_empty "Some 5"] chash_remove_empty [of example_empty None]
    chash_remove_empty [of "example_empty\<lparr>table := []\<rparr>" "Some 5"]
  by (simp add: example_empty_def)

text \<open>
  C10. When the bucket count is positive and at most \<^verbatim>\<open>INT_MAX\<close>, the bucket index that
  \<^verbatim>\<open>chash_insert\<close>, \<^verbatim>\<open>chash_remove\<close> and \<^verbatim>\<open>chash_lookup\<close> compute for a value is
  defined and lies in \<open>[0, buckets)\<close>, whatever \<^verbatim>\<open>int\<close> the hash function returns, a
  negative one included: the remainder is taken of the hash converted to
  \<^verbatim>\<open>unsigned int\<close>.
\<close>
theorem bucket_of_in_range:
  assumes "0 < buckets tbl" and "uint (buckets tbl) \<le> INT_MAX"
  shows "\<exists>b. bucket_of tbl v = Inr b \<and> b = sint (hash tbl v mod buckets tbl) \<and>
             0 \<le> b \<and> b < uint (buckets tbl)"
proof -
  have "buckets tbl \<noteq> 0" using assms(1) by auto
  then show ?thesis
    using bucket_index_range [OF assms, of "hash tbl v"]
    by (simp add: bucket_of_def bucket_index_def)
qed

theorem bucket_of_in_range_witness:
  "0 < buckets (example_empty\<lparr>hash := \<lambda>x. - 7\<rparr>) \<and>
   uint (buckets (example_empty\<lparr>hash := \<lambda>x. - 7\<rparr>)) \<le> INT_MAX \<and>
   sint (hash (example_empty\<lparr>hash := \<lambda>x. - 7\<rparr>) 5) = - 7 \<and>
   bucket_of (example_empty\<lparr>hash := \<lambda>x. - 7\<rparr>) 5 = Inr 1"
  using bucket_of_in_range [of "example_empty\<lparr>hash := \<lambda>x. - 7\<rparr>" 5]
  by (simp add: example_empty_def INT_MAX_def)

text \<open>
  C4. For every table that construction, insertion and removal lead to, the size field
  is the sum of the lengths of the bucket chains modulo \<open>2 ^ 32\<close>, the field being an
  \<^verbatim>\<open>unsigned int\<close> that \<^verbatim>\<open>tbl->size++\<close> wraps: it is that sum whenever the sum is
  below \<open>2 ^ 32\<close>. A full traversal visits as many values as the sum says.
\<close>
theorem size_is_chain_total:
  assumes "reachable tbl"
  shows "size' tbl = of_nat (chain_total tbl) \<and>
         (chain_total tbl < 2 ^ 32 \<longrightarrow> unat (size' tbl) = chain_total tbl) \<and>
         (\<exists>vs. chash_traverse tbl = Inr vs \<and> length vs = chain_total tbl)"
proof -
  have inv: "table_inv tbl" using assms by (rule reachable_inv)
  then have s: "size' tbl = of_nat (chain_total tbl)" by (simp add: table_inv_def size_inv_def)
  have "chash_traverse tbl = Inr (concat (chain_elems tbl))"
    using inv by (intro chash_traverse_ok) (simp add: table_inv_def)
  then have "\<exists>vs. chash_traverse tbl = Inr vs \<and> length vs = chain_total tbl"
    by (simp add: length_concat_total)
  then show ?thesis using s unat_size_total [of "chain_total tbl"] by simp
qed

theorem size_is_chain_total_witness:
  "reachable example_159 \<and> size' example_159 = 3 \<and> chain_total example_159 = 3 \<and>
   chash_traverse example_159 = Inr [1, 5, 9]"
proof -
  have t: "chain_total example_159 = 3" by (simp add: chain_total_def example_159_elems)
  have "chash_traverse example_159 = Inr [1, 5, 9]"
    by (simp add: chash_traverse_ok [OF example_159_ok] example_159_elems)
  then show ?thesis
    using size_is_chain_total [OF example_159_reachable] example_159_reachable t by simp
qed

text \<open>
  Without the bound the size field and the sum differ: \<open>2 ^ 32\<close> insertions of
  different values into a table of one bucket lead to a table that holds \<open>2 ^ 32\<close>
  values and whose size field is 0.
\<close>
theorem size_wraps_counterexample:
  "reachable (full_table (2 ^ 32)) \<and> chain_total (full_table (2 ^ 32)) = 2 ^ 32 \<and>
   size' (full_table (2 ^ 32)) = 0 \<and>
   unat (size' (full_table (2 ^ 32))) \<noteq> chain_total (full_table (2 ^ 32))"
proof -
  have s: "size' (full_table (2 ^ 32)) = 0"
    by (simp only: full_table_size word32_wraps)
  have t: "chain_total (full_table (2 ^ 32)) = 2 ^ 32" by (rule full_table_total)
  have "unat (size' (full_table (2 ^ 32))) = 0" by (simp only: s unat_0)
  then have "unat (size' (full_table (2 ^ 32))) \<noteq> chain_total (full_table (2 ^ 32))"
    by (simp only: t) simp
  then show ?thesis using full_table_reachable s t by blast
qed

text \<open>
  C8. On a well-formed table whose size is not 0, \<^verbatim>\<open>chash_remove\<close> with a value \<open>v\<close>
  works on the bucket \<open>hash v mod buckets\<close>. If position \<open>k\<close> holds the first value of
  that chain that \<open>v\<close> matches, the call returns 0, hands back that stored value,
  removes exactly that node, decrements the size and hands nothing to the destructor.
  If \<open>v\<close> matches no value of the chain, it returns -1 and the table is unchanged.
\<close>
theorem chash_remove_targeted:
  assumes "table_ok tbl" and "size' tbl \<noteq> 0"
  shows "bucket_nat tbl v = unat (hash tbl v mod buckets tbl) \<and>
         (k < length (chain_elems tbl ! bucket_nat tbl v) \<and>
              match tbl v (chain_elems tbl ! bucket_nat tbl v ! k) \<and>
              (\<forall>j < k. \<not> match tbl v (chain_elems tbl ! bucket_nat tbl v ! j)) \<longrightarrow>
              chash_remove tbl (Some v) =
                Inr (0, Some (chain_elems tbl ! bucket_nat tbl v ! k),
                     (put_chain tbl (bucket_nat tbl v)
                        (take k (chain_elems tbl ! bucket_nat tbl v) @
                         drop (Suc k) (chain_elems tbl ! bucket_nat tbl v)))
                       \<lparr>size' := size' tbl - 1\<rparr>, [])) \<and>
         ((\<forall>x \<in> set (chain_elems tbl ! bucket_nat tbl v). \<not> match tbl v x) \<longrightarrow>
              chash_remove tbl (Some v) = Inr (- 1, Some v, tbl, []))"
proof (intro conjI impI)
  let ?xs = "chain_elems tbl ! bucket_nat tbl v"
  have "uint (hash tbl v mod buckets tbl) < 2 ^ 31"
    using assms(1) bucket_index_range [of "buckets tbl" "hash tbl v"]
      word_mod_less_divisor [of "buckets tbl" "hash tbl v"]
    by (simp add: table_ok_def INT_MAX_def word_less_def)
  then show "bucket_nat tbl v = unat (hash tbl v mod buckets tbl)"
    by (simp add: bucket_nat_def bucket_index_def sint_small)
  {
    assume "k < length ?xs \<and> match tbl v (?xs ! k) \<and> (\<forall>j < k. \<not> match tbl v (?xs ! j))"
    then have "first_match (match tbl) v ?xs = k" and "k < length ?xs"
      by (simp_all add: first_match_unique)
    then show "chash_remove tbl (Some v) =
                Inr (0, Some (?xs ! k),
                     (put_chain tbl (bucket_nat tbl v) (take k ?xs @ drop (Suc k) ?xs))
                       \<lparr>size' := size' tbl - 1\<rparr>, [])"
      by (simp add: chash_remove_ok [OF assms] Let_def)
  }
  {
    assume "\<forall>x \<in> set ?xs. \<not> match tbl v x"
    then have "first_match (match tbl) v ?xs = length ?xs" by (simp add: first_match_none)
    then show "chash_remove tbl (Some v) = Inr (- 1, Some v, tbl, [])"
      by (simp add: chash_remove_ok [OF assms] Let_def)
  }
qed

theorem chash_remove_targeted_witness:
  "table_ok example_159 \<and> size' example_159 \<noteq> 0 \<and>
   chash_remove example_159 (Some 5) =
     Inr (0, Some 5, (put_chain example_159 1 [1, 9])\<lparr>size' := 2\<rparr>, []) \<and>
   chash_remove example_159 (Some 13) = Inr (- 1, Some 13, example_159, [])"
proof -
  have s: "size' example_159 \<noteq> 0" by (simp add: example_159_def)
  show ?thesis
    using chash_remove_targeted [OF example_159_ok s, of 5 1]
      chash_remove_targeted [OF example_159_ok s, of 13 0] example_159_ok
    by (simp add: example_bucket_nat example_159_elems example_fields)
qed

text \<open>
  C9. On a well-formed table that satisfies the size invariant and whose size is not 0,
  \<^verbatim>\<open>chash_remove\<close> with no value scans the buckets in index order and stops at an
  index below the bucket count, that of the first chain that is not empty; it returns
  0, hands back the head of that chain, removes it and decrements the size.
\<close>
theorem chash_remove_arbitrary:
  assumes "table_ok tbl" and "size_inv tbl" and "size' tbl \<noteq> 0"
  shows "\<exists>i x xs. i < unat (buckets tbl) \<and> find_nonempty tbl 0 = Inr i \<and>
           (\<forall>j < i. chain_elems tbl ! j = []) \<and> chain_elems tbl ! i = x # xs \<and>
           chash_remove tbl None =
             Inr (0, Some x, (put_chain tbl i xs)\<lparr>size' := size' tbl - 1\<rparr>, [])"
proof -
  have "chain_total tbl \<noteq> 0"
  proof
    assume "chain_total tbl = 0"
    then show False using assms(2,3) by (simp add: size_inv_def)
  qed
  then have "\<exists>i x xs. i < length (table tbl) \<and> find_nonempty tbl 0 = Inr i \<and>
           (\<forall>j < i. chain_elems tbl ! j = []) \<and> chain_elems tbl ! i = x # xs \<and>
           chash_remove tbl None =
             Inr (0, Some x, (put_chain tbl i xs)\<lparr>size' := size' tbl - 1\<rparr>, [])"
    using assms(1,3) by (intro remove_first_nonempty)
  then show ?thesis using assms(1) by (simp add: table_ok_def)
qed

theorem chash_remove_arbitrary_witness:
  "table_ok example_159 \<and> size_inv example_159 \<and> size' example_159 \<noteq> 0 \<and>
   chash_remove example_159 None =
     Inr (0, Some 1, (put_chain example_159 1 [5, 9])\<lparr>size' := 2\<rparr>, [])"
proof -
  have s: "size' example_159 \<noteq> 0" and s2: "size' example_159 - 1 = 2"
    by (simp_all add: example_159_def)
  have i: "size_inv example_159"
    by (simp add: size_inv_def chain_total_def example_159_elems) (simp add: example_159_def)
  have "find_nonempty example_159 (Suc 0) = Inr (Suc 0)"
    by (subst find_nonempty.simps)
       (simp add: chain_at_def slot_def list_size_def example_159_def empty_chain_def)
  then have f: "find_nonempty example_159 0 = Inr 1"
    by (subst find_nonempty.simps)
       (simp add: chain_at_def slot_def list_size_def example_159_def empty_chain_def)
  obtain j x xs where r: "find_nonempty example_159 0 = Inr j"
      "chain_elems example_159 ! j = x # xs"
      "chash_remove example_159 None =
         Inr (0, Some x, (put_chain example_159 j xs)\<lparr>size' := size' example_159 - 1\<rparr>, [])"
    using chash_remove_arbitrary [OF example_159_ok i s] by blast
  have "j = 1" using r(1) f by simp
  then have "x = 1 \<and> xs = [5, 9]" using r(2) by (simp add: example_159_elems)
  then show ?thesis using r(3) \<open>j = 1\<close> example_159_ok i s s2 by simp
qed

text \<open>
  C5. Let the table be one that construction, insertion and removal lead to, with a hash
  function and a match function that agree (values that match have equal hashes). If it
  stores a value that \<open>v\<close> matches, \<^verbatim>\<open>chash_insert\<close> of \<open>v\<close> returns 1 and the table is
  exactly as before, whether or not an allocation would have succeeded. And no two
  values stored at different places of such a table match each other.
\<close>
theorem chash_insert_already_present:
  assumes "reachable tbl" and "consistent tbl"
  shows "(x \<in> set (concat (chain_elems tbl)) \<and> match tbl v x \<longrightarrow>
            chash_insert alloc_ok tbl (Some v) = Inr (1, tbl)) \<and>
         unique tbl"
proof -
  have inv: "table_inv tbl" using assms(1) by (rule reachable_inv)
  then have ok: "table_ok tbl" and pl: "placed tbl" and fr: "fresh tbl"
    by (simp_all add: table_inv_def)
  have "unique tbl" using ok pl fr assms(2) by (rule unique_of_inv)
  then show ?thesis using chash_insert_stored [OF ok pl assms(2)] by blast
qed

theorem chash_insert_already_present_witness:
  "reachable example_159 \<and> consistent example_159 \<and>
   5 \<in> set (concat (chain_elems example_159)) \<and> match example_159 5 5 \<and>
   chash_insert True example_159 (Some 5) = Inr (1, example_159) \<and> unique example_159"
  using chash_insert_already_present [OF example_159_reachable example_159_consistent, of 5 5 True]
    example_159_reachable example_159_consistent
  by (simp add: example_159_elems example_fields)

text \<open>
  C6. Inserting 5 into the empty example table while the allocation of the chain's node
  fails: \<^verbatim>\<open>chash_insert\<close> returns 0, as a successful insertion does, and the lookup of 5
  that follows returns 0, the value not being stored, although 5 matches itself.
\<close>
theorem insert_reports_success_lookup_misses:
  "reachable example_empty \<and> match example_empty 5 5 \<and>
   chash_insert False example_empty (Some 5) = Inr (0, example_empty) \<and>
   chash_lookup example_empty (Some 5) = Inr (0, Some 5)"
proof -
  have "find (match example_empty 5) (chain_elems example_empty ! bucket_nat example_empty 5) = None"
    by (simp add: example_bucket_nat example_empty_elems)
  then have "chash_insert False example_empty (Some 5) = Inr (0, example_empty)"
    and "chash_lookup example_empty (Some 5) = Inr (0, Some 5)"
    by (simp_all add: chash_insert_ok [OF example_empty_ok] chash_lookup_ok [OF example_empty_ok])
  then show ?thesis using example_empty_reachable by (simp add: example_fields)
qed

end
